theory Spec2Isabelle
  imports Main "HOL-Library.Word"
begin

section \<open>Errors and machine integers\<close>

text \<open>
  The failures of \<^verbatim>\<open>deploy.cpp\<close> as values. \<open>CheckFailed\<close> is what \<^verbatim>\<open>TORCH_CHECK\<close>
  throws, \<open>InternalAssert\<close> what \<^verbatim>\<open>TORCH_INTERNAL_ASSERT\<close> and \<^verbatim>\<open>AT_ASSERT\<close> throw,
  \<open>RuntimeError\<close> a \<^verbatim>\<open>std::runtime_error\<close>. \<open>Undefined\<close> marks the places where the
  C++ has no defined behaviour (an access outside \<^verbatim>\<open>uses_\<close>, overflow of an \<^verbatim>\<open>int\<close>,
  a call through a null function pointer). \<open>Rethrown\<close> is an exception that went through
  \<^verbatim>\<open>TORCH_DEPLOY_SAFE_CATCH_RETHROW\<close>.
\<close>

datatype error =
    CheckFailed string
  | InternalAssert string
  | RuntimeError string
  | Undefined string
  | Rethrown error

type_synonym u64 = "64 word"

definition INT_MAX :: int where
  "INT_MAX = 2147483647"

definition INT_MIN :: int where
  "INT_MIN = - 2147483648"

definition SIZE_MAX :: u64 where
  "SIZE_MAX = 18446744073709551615"

text \<open>The value of an \<^verbatim>\<open>int\<close> after its conversion to \<^verbatim>\<open>size_t\<close> (64 bits).\<close>

definition size_t_of :: "int \<Rightarrow> nat" where
  "size_t_of i = nat (i mod 18446744073709551616)"

section \<open>LoadBalancer\<close>

text \<open>
  \<open>lb_uses\<close> is the member \<^verbatim>\<open>uses_\<close>, an array of \<^verbatim>\<open>uint64_t\<close>: the counter of slot
  \<open>i\<close> is the element \<open>8 * i\<close>. \<open>lb_n\<close> is the member \<^verbatim>\<open>n_\<close>, the number of slots that
  \<^verbatim>\<open>acquire\<close> scans. The scan cursor \<open>cur\<close> is the variable \<^verbatim>\<open>last\<close>, a
  \<^verbatim>\<open>thread_local int\<close> of \<^verbatim>\<open>acquire\<close>: it belongs to the calling thread, not to the
  balancer, so the functions take it and return it. One caller at a time runs: an atomic
  operation is the operation itself.
\<close>

record LoadBalancer =
  lb_uses :: "u64 list"
  lb_n :: nat

text \<open>
  The subscript \<^verbatim>\<open>uses_[8 * i]\<close> for an \<^verbatim>\<open>int\<close> \<open>i\<close>: the product is computed in
  \<^verbatim>\<open>int\<close>, and the element must exist.
\<close>

definition uses_index :: "LoadBalancer \<Rightarrow> int \<Rightarrow> error + nat" where
  "uses_index lb i =
     (if 8 * i < INT_MIN \<or> INT_MAX < 8 * i then Inl (Undefined ''int overflow'')
      else if 8 * i < 0 \<or> int (length (lb_uses lb)) \<le> 8 * i
        then Inl (Undefined ''uses_ out of bounds'')
      else Inr (nat (8 * i)))"

text \<open>
  The loop of \<^verbatim>\<open>LoadBalancer::acquire\<close>. The first argument is the number of iterations
  left (\<^verbatim>\<open>n_ - i\<close>). A compare-and-set from 0 to 1 by the only caller succeeds exactly when
  the counter is 0, and \<^verbatim>\<open>prev\<close> receives the counter's value otherwise. With no
  iteration left, the slow path adds 1 to the counter of \<^verbatim>\<open>min_idx\<close>.
  The result is the returned index, the balancer and the caller's cursor.
\<close>

fun acquire_loop ::
  "nat \<Rightarrow> LoadBalancer \<Rightarrow> int \<Rightarrow> u64 \<Rightarrow> int \<Rightarrow> error + (int \<times> LoadBalancer \<times> int)" where
  "acquire_loop 0 lb cur minusers min_idx =
     (case uses_index lb min_idx of
        Inl e \<Rightarrow> Inl e
      | Inr a \<Rightarrow> Inr (min_idx, lb\<lparr>lb_uses := (lb_uses lb)[a := lb_uses lb ! a + 1]\<rparr>, cur))"
| "acquire_loop (Suc k) lb cur minusers min_idx =
     (let cur1 = (if lb_n lb \<le> size_t_of cur then 0 else cur) in
      case uses_index lb cur1 of
        Inl e \<Rightarrow> Inl e
      | Inr a \<Rightarrow>
          let prev = lb_uses lb ! a in
          if prev = 0 then Inr (cur1, lb\<lparr>lb_uses := (lb_uses lb)[a := 1]\<rparr>, cur1)
          else if cur1 = INT_MAX then Inl (Undefined ''int overflow'')
          else if prev < minusers then acquire_loop k lb (cur1 + 1) prev cur1
          else acquire_loop k lb (cur1 + 1) minusers min_idx)"

definition acquire :: "LoadBalancer \<Rightarrow> int \<Rightarrow> error + (int \<times> LoadBalancer \<times> int)" where
  "acquire lb cur = acquire_loop (lb_n lb) lb cur SIZE_MAX 0"

text \<open>\<^verbatim>\<open>LoadBalancer::free\<close>: an unguarded \<^verbatim>\<open>__atomic_fetch_sub\<close> of 1 on a \<^verbatim>\<open>uint64_t\<close>.\<close>

definition free :: "LoadBalancer \<Rightarrow> int \<Rightarrow> error + LoadBalancer" where
  "free lb wh =
     (case uses_index lb wh of
        Inl e \<Rightarrow> Inl e
      | Inr a \<Rightarrow> Inr (lb\<lparr>lb_uses := (lb_uses lb)[a := lb_uses lb ! a - 1]\<rparr>))"

text \<open>
  Modelled from the spec: the constructor of \<^verbatim>\<open>LoadBalancer\<close> is declared in
  \<^verbatim>\<open>deploy.h\<close>, which is not part of the sources. The spec describes a balancer "sized
  to match" the pool whose slots are idle (counter 0) until acquired.
\<close>

definition LoadBalancer_init :: "nat \<Rightarrow> LoadBalancer" where
  "LoadBalancer_init n = \<lparr>lb_uses = replicate (8 * n) 0, lb_n = n\<rparr>"

text \<open>The counter of slot \<open>i\<close>.\<close>

definition counter :: "LoadBalancer \<Rightarrow> nat \<Rightarrow> u64" where
  "counter lb i = lb_uses lb ! (8 * i)"

text \<open>
  A balancer is well formed when every slot below \<^verbatim>\<open>n_\<close> has its element in \<^verbatim>\<open>uses_\<close>
  and the subscripts fit an \<^verbatim>\<open>int\<close>; a cursor is any value of an \<^verbatim>\<open>int\<close>.
\<close>

definition lb_wf :: "LoadBalancer \<Rightarrow> bool" where
  "lb_wf lb \<longleftrightarrow> 8 * lb_n lb \<le> length (lb_uses lb) \<and> 8 * int (lb_n lb) \<le> INT_MAX"

definition is_int :: "int \<Rightarrow> bool" where
  "is_int i \<longleftrightarrow> INT_MIN \<le> i \<and> i \<le> INT_MAX"

text \<open>\<open>k\<close> consecutive calls of \<^verbatim>\<open>acquire\<close> by one caller, with the indices returned.\<close>

fun acquire_many ::
  "nat \<Rightarrow> LoadBalancer \<Rightarrow> int \<Rightarrow> error + (int list \<times> LoadBalancer \<times> int)" where
  "acquire_many 0 lb cur = Inr ([], lb, cur)"
| "acquire_many (Suc k) lb cur =
     (case acquire lb cur of
        Inl e \<Rightarrow> Inl e
      | Inr (i, lb1, cur1) \<Rightarrow>
          (case acquire_many k lb1 cur1 of
             Inl e \<Rightarrow> Inl e
           | Inr (is, lb2, cur2) \<Rightarrow> Inr (i # is, lb2, cur2)))"

text \<open>
  The order in which a scan of \<open>k\<close> iterations probes the slots of a pool of \<open>n\<close> slots,
  from a cursor that is reset to 0 when it has reached \<open>n\<close>.
\<close>

fun scan_order :: "nat \<Rightarrow> nat \<Rightarrow> nat \<Rightarrow> nat list" where
  "scan_order n l 0 = []"
| "scan_order n l (Suc k) = (let l1 = (if n \<le> l then 0 else l) in l1 # scan_order n (Suc l1) k)"

text \<open>
  The pair \<^verbatim>\<open>(minusers, min_idx)\<close> after the loop has probed the slots \<open>ps\<close> in order and
  found none idle: a slot replaces the pair only when its counter is strictly smaller.
\<close>

fun min_scan :: "LoadBalancer \<Rightarrow> nat list \<Rightarrow> u64 \<times> int \<Rightarrow> u64 \<times> int" where
  "min_scan lb [] acc = acc"
| "min_scan lb (p # ps) acc =
     min_scan lb ps (if counter lb p < fst acc then (counter lb p, int p) else acc)"

text \<open>The balancer with the counter of slot \<open>i\<close> set to \<open>v\<close>.\<close>

definition set_counter :: "LoadBalancer \<Rightarrow> nat \<Rightarrow> u64 \<Rightarrow> LoadBalancer" where
  "set_counter lb i v = lb\<lparr>lb_uses := (lb_uses lb)[8 * i := v]\<rparr>"

text \<open>
  A run of the balancer under one caller: a list of calls, each \<^verbatim>\<open>acquire()\<close> or
  \<^verbatim>\<open>free(w)\<close>, executed in order. The run records what happened: the index an
  \<^verbatim>\<open>acquire\<close> returned, the index a \<^verbatim>\<open>free\<close> was given.
\<close>

datatype lb_op = Acquire | Free int

datatype lb_event = Acquired int | Freed int

fun lb_run ::
  "lb_op list \<Rightarrow> LoadBalancer \<Rightarrow> int \<Rightarrow> error + (lb_event list \<times> LoadBalancer \<times> int)" where
  "lb_run [] lb cur = Inr ([], lb, cur)"
| "lb_run (Acquire # ops) lb cur =
     (case acquire lb cur of
        Inl e \<Rightarrow> Inl e
      | Inr (i, lb1, cur1) \<Rightarrow>
          (case lb_run ops lb1 cur1 of
             Inl e \<Rightarrow> Inl e
           | Inr (evs, lb2, cur2) \<Rightarrow> Inr (Acquired i # evs, lb2, cur2)))"
| "lb_run (Free w # ops) lb cur =
     (case free lb w of
        Inl e \<Rightarrow> Inl e
      | Inr lb1 \<Rightarrow>
          (case lb_run ops lb1 cur of
             Inl e \<Rightarrow> Inl e
           | Inr (evs, lb2, cur2) \<Rightarrow> Inr (Freed w # evs, lb2, cur2)))"

text \<open>
  The words of the specification for the slow path: the slots in scan order from the
  caller's cursor (reset to 0 when it is not below the pool size), wrapping; and the first
  slot in that order whose counter is the smallest of all.
\<close>

definition scan_from :: "LoadBalancer \<Rightarrow> int \<Rightarrow> nat list" where
  "scan_from lb c =
     (let s = (if lb_n lb \<le> size_t_of c then 0 else size_t_of c) in [s..<lb_n lb] @ [0..<s])"

definition least_loaded_first :: "LoadBalancer \<Rightarrow> int \<Rightarrow> nat option" where
  "least_loaded_first lb c =
     find (\<lambda>p. \<forall>q\<in>set (scan_from lb c). counter lb p \<le> counter lb q) (scan_from lb c)"


text \<open>
  The number of users of slot \<open>i\<close> that a run has left: the calls of \<^verbatim>\<open>acquire\<close> that
  returned \<open>i\<close> minus the calls of \<^verbatim>\<open>free\<close> on \<open>i\<close>.
\<close>

definition tally :: "lb_event list \<Rightarrow> nat \<Rightarrow> int" where
  "tally evs i =
     int (count_list evs (Acquired (int i))) - int (count_list evs (Freed (int i)))"

text \<open>
  A run in which every \<^verbatim>\<open>free(w)\<close> is given a slot of the pool whose counter is not 0
  at that moment, as the destructor of a balanced session does.
\<close>

fun frees_matched :: "lb_op list \<Rightarrow> LoadBalancer \<Rightarrow> int \<Rightarrow> bool" where
  "frees_matched [] lb cur = True"
| "frees_matched (Acquire # ops) lb cur =
     (case acquire lb cur of
        Inl e \<Rightarrow> True
      | Inr (i, lb1, cur1) \<Rightarrow> frees_matched ops lb1 cur1)"
| "frees_matched (Free w # ops) lb cur =
     (0 \<le> w \<and> w < int (lb_n lb) \<and> counter lb (nat w) \<noteq> 0 \<and>
      (case free lb w of
         Inl e \<Rightarrow> True
       | Inr lb1 \<Rightarrow> frees_matched ops lb1 cur))"

section \<open>RuntimeInstance: the embedded image, construction and teardown\<close>

text \<open>
  Pointers are addresses, 0 is \<^verbatim>\<open>nullptr\<close>.
\<close>

type_synonym ptr = nat

record InterpreterSymbol =
  start_sym :: string
  end_sym :: string
  custom_loader :: bool

definition interpreter_search_path :: "InterpreterSymbol list" where
  "interpreter_search_path =
     [\<lparr>start_sym = ''_binary_libtorch_deployinterpreter_all_so_start'',
       end_sym = ''_binary_libtorch_deployinterpreter_all_so_end'',
       custom_loader = True\<rparr>,
      \<lparr>start_sym = ''_binary_libtorch_deployinterpreter_cuda_so_start'',
       end_sym = ''_binary_libtorch_deployinterpreter_cuda_so_end'',
       custom_loader = False\<rparr>,
      \<lparr>start_sym = ''_binary_libtorch_deployinterpreter_cpu_so_start'',
       end_sym = ''_binary_libtorch_deployinterpreter_cpu_so_end'',
       custom_loader = False\<rparr>]"

text \<open>
  What the process and the C library answer to the calls of \<^verbatim>\<open>deploy.cpp\<close>:
  \<open>dlsym_self\<close> is \<^verbatim>\<open>dlsym(nullptr, name)\<close>, the lookup in the process's own symbol table;
  \<open>fwrite_items\<close> is the number of items \<^verbatim>\<open>fwrite\<close> reports for a given address and size;
  \<open>mkstemp_fd\<close> and \<open>mkstemp_name\<close> are the descriptor and the name \<^verbatim>\<open>mkstemp\<close> gives;
  \<open>fdopen_file\<close> is the \<^verbatim>\<open>FILE*\<close> of \<^verbatim>\<open>fdopen\<close>; \<open>libc\<close> is the value of the name
  \<^verbatim>\<open>libc\<close> that the constructor asserts, which the file does not declare in that scope;
  \<open>dlopen_handle\<close> is the result of \<^verbatim>\<open>dlopen\<close> on the temporary file for given flags and
  \<open>dlerror_text\<close> the text of \<^verbatim>\<open>dlerror()\<close>; \<open>dlsym_image\<close> is \<^verbatim>\<open>dlsym(handle_, name)\<close>,
  the symbols the loaded image exports.
\<close>

record process =
  dlsym_self :: "string \<Rightarrow> ptr"
  cuda_is_available :: bool
  fwrite_items :: "ptr \<Rightarrow> nat \<Rightarrow> nat"
  mkstemp_fd :: int
  mkstemp_name :: string
  fdopen_file :: ptr
  libc :: ptr
  dlopen_handle :: "nat \<Rightarrow> ptr"
  dlerror_text :: string
  dlsym_image :: "string \<Rightarrow> ptr"

text \<open>
  The loop of \<^verbatim>\<open>writeDeployInterpreter\<close> over the search path. The result is the triple
  \<^verbatim>\<open>(lib_start, lib_end, custom_loader)\<close> at the end of the loop: the loop breaks at the
  first entry whose start symbol is found, after one lookup of its end symbol.
\<close>

fun search_loop :: "(string \<Rightarrow> ptr) \<Rightarrow> InterpreterSymbol list \<Rightarrow> ptr \<times> ptr \<times> bool" where
  "search_loop dlsym [] = (0, 0, False)"
| "search_loop dlsym (s # ss) =
     (let lib_start = dlsym (start_sym s) in
      if lib_start \<noteq> 0 then (lib_start, dlsym (end_sym s), custom_loader s)
      else search_loop dlsym ss)"

definition not_found_text :: string where
  "not_found_text = ''torch::deploy requires a build-time dependency on embedded_interpreter or embedded_interpreter_cuda, neither of which were found.  torch::cuda::is_available()=''"

text \<open>
  \<^verbatim>\<open>writeDeployInterpreter(dst)\<close>. The result is the flag \<^verbatim>\<open>custom_loader\<close> with the byte
  range (address and size) that was copied to \<^verbatim>\<open>dst\<close>. The size is a \<^verbatim>\<open>size_t\<close>.
\<close>

definition writeDeployInterpreter :: "process \<Rightarrow> ptr \<Rightarrow> error + (bool \<times> ptr \<times> nat)" where
  "writeDeployInterpreter P dst =
     (if dst = 0 then Inl (InternalAssert ''dst'')
      else
        case search_loop (dlsym_self P) interpreter_search_path of
          (lib_start, lib_end, cl) \<Rightarrow>
            if \<not> (lib_start \<noteq> 0 \<and> lib_end \<noteq> 0)
            then Inl (CheckFailed (not_found_text @ (if cuda_is_available P then ''1'' else ''0'')))
            else
              let size = nat ((int lib_end - int lib_start) mod 18446744073709551616);
                  written = fwrite_items P lib_start size
              in if size \<noteq> written then Inl (InternalAssert ''expected written == size'')
                 else Inr (cl, lib_start, size))"

text \<open>
  Modelled from the spec: \<^verbatim>\<open>InterpreterImpl\<close>, the runtime-control object behind
  \<^verbatim>\<open>pImpl_\<close>, is declared outside \<^verbatim>\<open>deploy.cpp\<close>. The spec gives each instance a
  materialization cache "keyed by id, owned by the instance": an association list from
  object id to the live value.
\<close>

type_synonym Obj = nat

record InterpreterImpl =
  objects :: "(nat \<times> Obj) list"

text \<open>
  \<^verbatim>\<open>Interpreter\<close>: \<open>pImpl\<close> is the \<^verbatim>\<open>std::unique_ptr<InterpreterImpl>\<close>, \<open>None\<close> when it
  owns nothing; \<open>interp_manager\<close> tells whether \<^verbatim>\<open>manager_\<close> is not null.
\<close>

record Interpreter =
  library_name :: string
  handle :: ptr
  pImpl :: "InterpreterImpl option"
  custom_loader_flag :: bool
  interp_manager :: bool

text \<open>The values of the flags in \<^verbatim>\<open>dlfcn.h\<close> of glibc.\<close>

definition RTLD_LAZY :: nat where "RTLD_LAZY = 1"
definition RTLD_LOCAL :: nat where "RTLD_LOCAL = 0"
definition RTLD_DEEPBIND :: nat where "RTLD_DEEPBIND = 8"

text \<open>
  The constructor \<^verbatim>\<open>Interpreter::Interpreter(manager)\<close>, without the \<^verbatim>\<open>FBCODE_CAFFE2\<close>
  branch. An exception leaves the constructor and no object exists: the result is the
  error. \<open>new_impl\<close> is what the factory \<^verbatim>\<open>new_interpreter_impl\<close> of the image returns.
  The flags are disjoint bits, so \<^verbatim>\<open>|\<close> is a sum.
\<close>

definition Interpreter_ctor ::
  "process \<Rightarrow> InterpreterImpl option \<Rightarrow> bool \<Rightarrow> error + Interpreter" where
  "Interpreter_ctor P new_impl mgr =
     (if mkstemp_fd P = - 1 then Inl (InternalAssert ''failed to create temporary file'')
      else
        case writeDeployInterpreter P (fdopen_file P) of
          Inl e \<Rightarrow> Inl e
        | Inr (cl, copied) \<Rightarrow>
            let flags = RTLD_LOCAL + RTLD_LAZY + (if cl then RTLD_DEEPBIND else 0) in
            if libc P = 0 then Inl (InternalAssert ''libc'')
            else
              let h = dlopen_handle P flags in
              if h = 0 then Inl (RuntimeError (dlerror_text P))
              else if cl \<and> dlsym_image P ''deploy_set_self'' = 0
                then Inl (InternalAssert ''deploy_set_self_ptr'')
              else if dlsym_image P ''new_interpreter_impl'' = 0
                then Inl (InternalAssert ''new_interpreter_impl'')
              else Inr \<lparr>library_name = mkstemp_name P, handle = h, pImpl = new_impl,
                        custom_loader_flag = cl, interp_manager = mgr\<rparr>)"

text \<open>
  What teardown does to the outside, in order: the release of the runtime-control object,
  the call of the hook \<^verbatim>\<open>deploy_flush_python_libs\<close>, and \<^verbatim>\<open>dlclose\<close> of a handle.
\<close>

datatype teardown_event =
    ReleaseImpl InterpreterImpl
  | FlushPythonLibs
  | Dlclose ptr

text \<open>
  The body of \<^verbatim>\<open>Interpreter::~Interpreter\<close>. \<^verbatim>\<open>pImpl_.reset()\<close> destroys the object that
  \<^verbatim>\<open>pImpl_\<close> owns, if any, and leaves it empty. The hook is called through the pointer
  that \<^verbatim>\<open>dlsym\<close> returns, with no check: a null pointer there has no defined behaviour.
  The result is the events in order and the object after the body, or the error.
\<close>

definition Interpreter_dtor ::
  "(string \<Rightarrow> ptr) \<Rightarrow> Interpreter \<Rightarrow> teardown_event list \<times> (error + Interpreter)" where
  "Interpreter_dtor dlsym_h I =
     (if handle I \<noteq> 0 then
        let ev1 = (case pImpl I of None \<Rightarrow> [] | Some impl \<Rightarrow> [ReleaseImpl impl]);
            I1 = I\<lparr>pImpl := None\<rparr>
        in if custom_loader_flag I then
             (if dlsym_h ''deploy_flush_python_libs'' = 0
              then (ev1, Inl (Undefined ''call through a null pointer''))
              else (ev1 @ [FlushPythonLibs, Dlclose (handle I)], Inr I1))
           else (ev1 @ [Dlclose (handle I)], Inr I1)
      else ([], Inr I))"

text \<open>
  The destruction of an \<^verbatim>\<open>Interpreter\<close>: the body of the destructor, then the destructor
  of the member \<^verbatim>\<open>pImpl_\<close>, which releases the object it still owns.
\<close>

definition Interpreter_destroy ::
  "(string \<Rightarrow> ptr) \<Rightarrow> Interpreter \<Rightarrow> teardown_event list \<times> error option" where
  "Interpreter_destroy dlsym_h I =
     (case Interpreter_dtor dlsym_h I of
        (evs, Inl e) \<Rightarrow> (evs, Some e)
      | (evs, Inr I1) \<Rightarrow>
          (evs @ (case pImpl I1 of None \<Rightarrow> [] | Some impl \<Rightarrow> [ReleaseImpl impl]), None))"

text \<open>
  The words of the specification for the discovery of the embedded image: the first
  variant of the list whose start symbol and end symbol both resolve.
\<close>

definition first_both_resolve ::
  "(string \<Rightarrow> ptr) \<Rightarrow> InterpreterSymbol list \<Rightarrow> InterpreterSymbol option" where
  "first_both_resolve dlsym ss = find (\<lambda>s. dlsym (start_sym s) \<noteq> 0 \<and> dlsym (end_sym s) \<noteq> 0) ss"

text \<open>What the loop does: the first variant whose start symbol resolves.\<close>

definition first_start_resolves ::
  "(string \<Rightarrow> ptr) \<Rightarrow> InterpreterSymbol list \<Rightarrow> InterpreterSymbol option" where
  "first_start_resolves dlsym ss = find (\<lambda>s. dlsym (start_sym s) \<noteq> 0) ss"

text \<open>
  Two processes for the examples. In the first only the CPU variant is linked in. In the
  second the start symbol of the first variant resolves and its end symbol does not, while
  both symbols of the CPU variant resolve.
\<close>

definition process_cpu :: process where
  "process_cpu =
     \<lparr>dlsym_self = (\<lambda>name.
        if name = ''_binary_libtorch_deployinterpreter_cpu_so_start'' then 8192
        else if name = ''_binary_libtorch_deployinterpreter_cpu_so_end'' then 12288
        else 0),
      cuda_is_available = False, fwrite_items = (\<lambda>a n. n), mkstemp_fd = 3,
      mkstemp_name = ''/tmp/torch_deployAAAAAA'', fdopen_file = 1, libc = 1,
      dlopen_handle = (\<lambda>flags. 7), dlerror_text = ''no error'',
      dlsym_image = (\<lambda>name. 5)\<rparr>"

definition process_half_variant :: process where
  "process_half_variant =
     process_cpu\<lparr>dlsym_self := (\<lambda>name.
        if name = ''_binary_libtorch_deployinterpreter_all_so_start'' then 4096
        else dlsym_self process_cpu name)\<rparr>"

section \<open>InstancePool, sessions and movable objects\<close>

text \<open>
  Modelled from the spec: the macros \<^verbatim>\<open>TORCH_DEPLOY_TRY\<close> and
  \<^verbatim>\<open>TORCH_DEPLOY_SAFE_CATCH_RETHROW\<close> are defined outside \<^verbatim>\<open>deploy.cpp\<close>. The spec says
  that an error is "caught at the pool/session boundary, decorated with contextual
  information", and "re-raised -- never swallowed".
\<close>

definition TORCH_DEPLOY_SAFE_CATCH_RETHROW :: "error + 'a \<Rightarrow> error + 'a" where
  "TORCH_DEPLOY_SAFE_CATCH_RETHROW r = (case r of Inl e \<Rightarrow> Inl (Rethrown e) | Inr v \<Rightarrow> Inr v)"

type_synonym PickledObject = "8 word list"

text \<open>
  \<^verbatim>\<open>InterpreterSession\<close>: \<open>sess_on\<close> is the instance whose session \<^verbatim>\<open>impl_\<close> is,
  \<open>sess_manager\<close> tells whether \<^verbatim>\<open>manager_\<close> is not null, \<open>notify_idx\<close> is
  \<^verbatim>\<open>notify_idx_\<close>.
\<close>

record InterpreterSession =
  sess_on :: nat
  self :: Obj
  sess_manager :: bool
  notify_idx :: int

text \<open>
  \<^verbatim>\<open>InterpreterManager\<close>: the balancer \<^verbatim>\<open>resources_\<close>, the instances \<^verbatim>\<open>instances_\<close>, and
  the counter \<^verbatim>\<open>next_object_id_\<close>. Modelled from the spec: the declaration of
  \<^verbatim>\<open>next_object_id_\<close> is outside \<^verbatim>\<open>deploy.cpp\<close>; the spec calls it "a monotonically
  increasing object-id counter", a natural number here.
\<close>

record InterpreterManager =
  resources :: LoadBalancer
  instances :: "Interpreter list"
  next_object_id :: nat

text \<open>
  \<^verbatim>\<open>ReplicatedObjImpl\<close>, the object behind the handles \<^verbatim>\<open>ReplicatedObj\<close>;
  \<open>obj_manager\<close> tells whether \<^verbatim>\<open>manager_\<close> is not null.
\<close>

record ReplicatedObjImpl =
  object_id :: nat
  data :: PickledObject
  obj_manager :: bool

definition create_movable_text :: string where
  "create_movable_text = ''Can only create a movable object when the session was created from an interpreter that is part of a InterpreterManager''"

text \<open>
  \<^verbatim>\<open>InterpreterSession::create_movable\<close>. \<open>pickle\<close> is \<^verbatim>\<open>impl_->pickle\<close>, which runs in
  the runtime instance and either raises (with a text) or gives the payload. The result is
  the new object or the error, and the manager afterwards.
\<close>

definition create_movable ::
  "(Obj \<Rightarrow> Obj \<Rightarrow> string + PickledObject) \<Rightarrow> InterpreterManager \<Rightarrow> InterpreterSession \<Rightarrow> Obj \<Rightarrow>
     (error + ReplicatedObjImpl) \<times> InterpreterManager" where
  "create_movable pickle m s obj =
     (if \<not> sess_manager s
      then (TORCH_DEPLOY_SAFE_CATCH_RETHROW (Inl (CheckFailed create_movable_text)), m)
      else
        case pickle (self s) obj of
          Inl msg \<Rightarrow> (TORCH_DEPLOY_SAFE_CATCH_RETHROW (Inl (RuntimeError msg)), m)
        | Inr pickled \<Rightarrow>
            (TORCH_DEPLOY_SAFE_CATCH_RETHROW
               (Inr \<lparr>object_id = next_object_id m, data = pickled, obj_manager = True\<rparr>),
             m\<lparr>next_object_id := next_object_id m + 1\<rparr>))"

text \<open>
  Modelled from the spec: \<^verbatim>\<open>Interpreter::acquire_session\<close> is defined outside
  \<^verbatim>\<open>deploy.cpp\<close>. The spec describes a session "explicitly pinned to one instance",
  which on destruction "does nothing to the balancer": it carries the manager of the
  instance and no balancer index (\<^verbatim>\<open>notify_idx_\<close> negative).
\<close>

definition Interpreter_acquire_session :: "Interpreter \<Rightarrow> nat \<Rightarrow> InterpreterSession" where
  "Interpreter_acquire_session I k =
     \<lparr>sess_on = k, self = 0, sess_manager = interp_manager I, notify_idx = - 1\<rparr>"

text \<open>
  Modelled from the spec: \<^verbatim>\<open>InterpreterManager::acquire_one\<close> is defined outside
  \<^verbatim>\<open>deploy.cpp\<close>. The spec: it "calls the balancer, returns a Session bound to the chosen
  instance", which on destruction calls \<^verbatim>\<open>free\<close> "on the bound index": the session
  carries the index the balancer returned.
\<close>

definition acquire_one ::
  "InterpreterManager \<Rightarrow> int \<Rightarrow> error + (InterpreterSession \<times> InterpreterManager \<times> int)" where
  "acquire_one m cur =
     (case acquire (resources m) cur of
        Inl e \<Rightarrow> Inl e
      | Inr (wh, lb, cur1) \<Rightarrow>
          if wh < 0 \<or> int (length (instances m)) \<le> wh
          then Inl (Undefined ''instances_ out of bounds'')
          else Inr ((Interpreter_acquire_session (instances m ! nat wh) (nat wh))\<lparr>notify_idx := wh\<rparr>,
                    m\<lparr>resources := lb\<rparr>, cur1))"

text \<open>
  \<^verbatim>\<open>InterpreterSession::~InterpreterSession\<close>. The first component lists the calls of
  \<^verbatim>\<open>LoadBalancer::free\<close> that the destructor makes, by their argument.
\<close>

definition InterpreterSession_dtor ::
  "InterpreterManager \<Rightarrow> InterpreterSession \<Rightarrow> int list \<times> (error + InterpreterManager)" where
  "InterpreterSession_dtor m s =
     (if sess_manager s \<and> 0 \<le> notify_idx s
      then ([notify_idx s],
            case free (resources m) (notify_idx s) of
              Inl e \<Rightarrow> Inl e
            | Inr lb \<Rightarrow> Inr (m\<lparr>resources := lb\<rparr>))
      else ([], Inr m))"

text \<open>
  Modelled from the spec: \<^verbatim>\<open>InterpreterSessionImpl::unpickle_or_get\<close> and
  \<^verbatim>\<open>InterpreterSessionImpl::unload\<close> are defined outside \<^verbatim>\<open>deploy.cpp\<close>. The spec:
  resolve the id "against that instance's per-instance materialization cache: if present,
  return the cached live value; if absent, deserialize the payload into a live value,
  insert it into the cache keyed by id, and return it"; unload is to "evict the cached
  materialization", and "repeated unload of an already-unloaded id on any instance is a
  no-op, never an error".
\<close>

definition unpickle_or_get ::
  "(PickledObject \<Rightarrow> Obj) \<Rightarrow> InterpreterImpl \<Rightarrow> nat \<Rightarrow> PickledObject \<Rightarrow> Obj \<times> InterpreterImpl" where
  "unpickle_or_get unpickle impl i d =
     (case map_of (objects impl) i of
        Some v \<Rightarrow> (v, impl)
      | None \<Rightarrow> (unpickle d, impl\<lparr>objects := (i, unpickle d) # objects impl\<rparr>))"

definition impl_unload :: "InterpreterImpl \<Rightarrow> nat \<Rightarrow> InterpreterImpl" where
  "impl_unload impl i = impl\<lparr>objects := filter (\<lambda>e. fst e \<noteq> i) (objects impl)\<rparr>"

text \<open>
  What an unload does to the pool, in order: \<^verbatim>\<open>acquire_session()\<close> on instance \<open>k\<close>,
  \<^verbatim>\<open>impl_->unload(id)\<close> in instance \<open>k\<close>, a call of \<^verbatim>\<open>LoadBalancer::free\<close>.
\<close>

datatype pool_event =
    AcquireSession nat
  | Unload nat nat
  | BalancerFree int

text \<open>
  \<^verbatim>\<open>ReplicatedObjImpl::unload(on_this_interpreter)\<close> for a pointer that is not null: a
  session on that interpreter, \<^verbatim>\<open>unload\<close> of the object's id there, and the end of the
  session. The interpreter is designated by its position \<open>k\<close> in \<^verbatim>\<open>instances_\<close>; an
  interpreter that is not one of the pool keeps its cache outside the manager, which is
  then unchanged.
\<close>

definition unload_on ::
  "InterpreterManager \<Rightarrow> ReplicatedObjImpl \<Rightarrow> nat \<Rightarrow> pool_event list \<times> (error + InterpreterManager)" where
  "unload_on m obj k =
     (if length (instances m) \<le> k then ([AcquireSession k, Unload k (object_id obj)], Inr m)
      else
        case pImpl (instances m ! k) of
          None \<Rightarrow> ([], Inl (Undefined ''pImpl_ is null''))
        | Some impl \<Rightarrow>
            let s = Interpreter_acquire_session (instances m ! k) k;
                m1 = m\<lparr>instances := (instances m)
                       [k := (instances m ! k)\<lparr>pImpl := Some (impl_unload impl (object_id obj))\<rparr>]\<rparr>
            in case InterpreterSession_dtor m1 s of
                 (fs, r) \<Rightarrow>
                   ([AcquireSession k, Unload k (object_id obj)] @ map BalancerFree fs,
                    TORCH_DEPLOY_SAFE_CATCH_RETHROW r))"

text \<open>The loop of the broadcast over \<^verbatim>\<open>manager_->all_instances()\<close>; an exception ends it.\<close>

fun unload_all ::
  "ReplicatedObjImpl \<Rightarrow> nat list \<Rightarrow> InterpreterManager \<Rightarrow>
     pool_event list \<times> (error + InterpreterManager)" where
  "unload_all obj [] m = ([], Inr m)"
| "unload_all obj (k # ks) m =
     (case unload_on m obj k of
        (evs, Inl e) \<Rightarrow> (evs, Inl e)
      | (evs, Inr m1) \<Rightarrow> (case unload_all obj ks m1 of (evs2, r) \<Rightarrow> (evs @ evs2, r)))"

text \<open>
  \<^verbatim>\<open>ReplicatedObjImpl::unload\<close>: \<open>None\<close> is \<^verbatim>\<open>nullptr\<close>, the broadcast, which dereferences
  \<^verbatim>\<open>manager_\<close>.
\<close>

definition ReplicatedObjImpl_unload ::
  "InterpreterManager \<Rightarrow> ReplicatedObjImpl \<Rightarrow> nat option \<Rightarrow>
     pool_event list \<times> (error + InterpreterManager)" where
  "ReplicatedObjImpl_unload m obj on_this_interpreter =
     (case on_this_interpreter of
        None \<Rightarrow>
          if \<not> obj_manager obj then ([], Inl (Undefined ''manager_ is null''))
          else (case unload_all obj [0..<length (instances m)] m of
                  (evs, r) \<Rightarrow> (evs, TORCH_DEPLOY_SAFE_CATCH_RETHROW r))
      | Some k \<Rightarrow> unload_on m obj k)"

text \<open>\<^verbatim>\<open>ReplicatedObjImpl::~ReplicatedObjImpl\<close> and \<^verbatim>\<open>ReplicatedObj::unload\<close>.\<close>

definition ReplicatedObjImpl_dtor ::
  "InterpreterManager \<Rightarrow> ReplicatedObjImpl \<Rightarrow> pool_event list \<times> (error + InterpreterManager)" where
  "ReplicatedObjImpl_dtor m obj = ReplicatedObjImpl_unload m obj None"

definition ReplicatedObj_unload ::
  "InterpreterManager \<Rightarrow> ReplicatedObjImpl \<Rightarrow> nat option \<Rightarrow>
     pool_event list \<times> (error + InterpreterManager)" where
  "ReplicatedObj_unload m obj on_this_interpreter =
     (case ReplicatedObjImpl_unload m obj on_this_interpreter of
        (evs, r) \<Rightarrow> (evs, TORCH_DEPLOY_SAFE_CATCH_RETHROW r))"

text \<open>
  A handle \<^verbatim>\<open>ReplicatedObj\<close> holds a \<^verbatim>\<open>std::shared_ptr\<close> to the object: the destruction of
  a handle destroys the object when the handle is the last one (\<open>use_count\<close> 1).
\<close>

definition ReplicatedObj_dtor ::
  "InterpreterManager \<Rightarrow> ReplicatedObjImpl \<Rightarrow> nat \<Rightarrow>
     pool_event list \<times> (error + InterpreterManager)" where
  "ReplicatedObj_dtor m obj use_count =
     (if use_count = 1 then ReplicatedObjImpl_dtor m obj else ([], Inr m))"

text \<open>
  \<^verbatim>\<open>InterpreterSession::from_movable\<close> in a session on instance \<open>sess_on s\<close>. A session
  on an interpreter that is not one of the pool materializes the value there, outside the
  manager.
\<close>

definition from_movable ::
  "(PickledObject \<Rightarrow> Obj) \<Rightarrow> InterpreterManager \<Rightarrow> InterpreterSession \<Rightarrow> ReplicatedObjImpl \<Rightarrow>
     error + (Obj \<times> InterpreterManager)" where
  "from_movable unpickle m s obj =
     TORCH_DEPLOY_SAFE_CATCH_RETHROW
       (if length (instances m) \<le> sess_on s then Inr (unpickle (data obj), m)
        else
          case pImpl (instances m ! sess_on s) of
            None \<Rightarrow> Inl (Undefined ''pImpl_ is null'')
          | Some impl \<Rightarrow>
              (case unpickle_or_get unpickle impl (object_id obj) (data obj) of
                 (v, impl1) \<Rightarrow>
                   Inr (v, m\<lparr>instances := (instances m)
                          [sess_on s := (instances m ! sess_on s)\<lparr>pImpl := Some impl1\<rparr>]\<rparr>)))"

text \<open>
  A pool as its constructor leaves it: as many instances as the balancer has slots, each
  loaded, with its runtime-control object and with the manager set.
\<close>

definition pool_wf :: "InterpreterManager \<Rightarrow> bool" where
  "pool_wf m \<longleftrightarrow>
     lb_wf (resources m) \<and> 0 < lb_n (resources m) \<and>
     length (instances m) = lb_n (resources m) \<and>
     list_all (\<lambda>I. interp_manager I \<and> pImpl I \<noteq> None \<and> handle I \<noteq> 0) (instances m)"

text \<open>
  A history of one pool: movable objects are created from sessions, resolved in sessions
  and destroyed, in any order. The run collects the ids that \<^verbatim>\<open>create_movable\<close> assigned,
  in order. An exception that leaves a destructor ends the run.
\<close>

datatype pool_op =
    CreateMovable InterpreterSession Obj
  | FromMovable InterpreterSession ReplicatedObjImpl
  | DestroyMovable ReplicatedObjImpl

fun pool_run ::
  "(Obj \<Rightarrow> Obj \<Rightarrow> string + PickledObject) \<Rightarrow> (PickledObject \<Rightarrow> Obj) \<Rightarrow> pool_op list \<Rightarrow>
     InterpreterManager \<Rightarrow> nat list \<times> InterpreterManager" where
  "pool_run pickle unpickle [] m = ([], m)"
| "pool_run pickle unpickle (CreateMovable s obj # ops) m =
     (case create_movable pickle m s obj of
        (Inl e, m1) \<Rightarrow> pool_run pickle unpickle ops m1
      | (Inr h, m1) \<Rightarrow>
          (case pool_run pickle unpickle ops m1 of (ids, m2) \<Rightarrow> (object_id h # ids, m2)))"
| "pool_run pickle unpickle (FromMovable s h # ops) m =
     (case from_movable unpickle m s h of
        Inl e \<Rightarrow> pool_run pickle unpickle ops m
      | Inr (v, m1) \<Rightarrow> pool_run pickle unpickle ops m1)"
| "pool_run pickle unpickle (DestroyMovable h # ops) m =
     (case ReplicatedObjImpl_dtor m h of
        (evs, Inl e) \<Rightarrow> ([], m)
      | (evs, Inr m1) \<Rightarrow> pool_run pickle unpickle ops m1)"

text \<open>
  Whether instance \<open>I\<close> holds a materialization of the object with id \<open>i\<close>, and the
  instance after the eviction of that id from its cache.
\<close>

definition materialized :: "Interpreter \<Rightarrow> nat \<Rightarrow> bool" where
  "materialized I i =
     (case pImpl I of None \<Rightarrow> False | Some impl \<Rightarrow> i \<in> set (map fst (objects impl)))"

definition evicted :: "nat \<Rightarrow> Interpreter \<Rightarrow> Interpreter" where
  "evicted i I = I\<lparr>pImpl := map_option (\<lambda>impl. impl_unload impl i) (pImpl I)\<rparr>"

text \<open>
  A pool of two instances for the examples: the object with id 0 is materialized on the
  first instance only, and the next id is 1.
\<close>

definition example_pool :: InterpreterManager where
  "example_pool =
     \<lparr>resources = LoadBalancer_init 2,
      instances =
        [\<lparr>library_name = ''/tmp/torch_deployAAAAAA'', handle = 7,
          pImpl = Some \<lparr>objects = [(0, 41)]\<rparr>, custom_loader_flag = False,
          interp_manager = True\<rparr>,
         \<lparr>library_name = ''/tmp/torch_deployBBBBBB'', handle = 9,
          pImpl = Some \<lparr>objects = []\<rparr>, custom_loader_flag = False,
          interp_manager = True\<rparr>],
      next_object_id = 1\<rparr>"

section \<open>Properties of the balancer\<close>

lemma size_t_of_nat: "size_t_of (int l) = l" if "int l \<le> INT_MAX"
  using that by (simp add: size_t_of_def INT_MAX_def)

lemma size_t_of_small:
  assumes "is_int c" "size_t_of c < n" "int n \<le> INT_MAX"
  shows "0 \<le> c \<and> nat c = size_t_of c"
proof (cases "0 \<le> c")
  case True
  with assms show ?thesis by (simp add: size_t_of_def is_int_def INT_MAX_def)
next
  case False
  have "(c + 18446744073709551616) mod 18446744073709551616 = c + 18446744073709551616"
    using assms(1) False by (intro mod_pos_pos_trivial) (simp_all add: is_int_def INT_MIN_def)
  then have "c mod 18446744073709551616 = c + 18446744073709551616"
    by simp
  with assms False show ?thesis
    by (simp add: size_t_of_def is_int_def INT_MIN_def INT_MAX_def)
qed

lemma uses_index_slot:
  assumes "lb_wf lb" "p < lb_n lb"
  shows "uses_index lb (int p) = Inr (8 * p)"
  using assms by (auto simp: uses_index_def lb_wf_def INT_MAX_def INT_MIN_def)

lemma scan_order_bound: "0 < n \<Longrightarrow> p \<in> set (scan_order n l k) \<Longrightarrow> p < n"
  by (induction k arbitrary: l) (auto simp: Let_def split: if_splits)


lemma acquire_loop_Suc:
  fixes lb :: LoadBalancer and c :: int
  assumes "lb_wf lb" "0 < lb_n lb" "is_int c"
  defines "l1 \<equiv> (if lb_n lb \<le> size_t_of c then 0 else size_t_of c)"
  shows "acquire_loop (Suc k) lb c mu mi =
     (if counter lb l1 = 0 then Inr (int l1, set_counter lb l1 1, int l1)
      else if counter lb l1 < mu then acquire_loop k lb (int (Suc l1)) (counter lb l1) (int l1)
      else acquire_loop k lb (int (Suc l1)) mu mi)"
proof -
  have nmax: "int (lb_n lb) \<le> INT_MAX"
    using assms(1) by (simp add: lb_wf_def INT_MAX_def)
  have l1n: "l1 < lb_n lb"
    using assms(2) by (simp add: l1_def)
  have c1: "(if lb_n lb \<le> size_t_of c then 0 else c) = int l1"
    using size_t_of_small [OF assms(3) _ nmax] by (auto simp: l1_def)
  have idx: "uses_index lb (int l1) = Inr (8 * l1)"
    using uses_index_slot [OF assms(1) l1n] .
  have nomax: "int l1 \<noteq> INT_MAX"
    using l1n assms(1) by (simp add: lb_wf_def INT_MAX_def)
  show ?thesis
    unfolding acquire_loop.simps Let_def c1 idx
    using nomax by (simp add: counter_def set_counter_def add.commute)
qed

lemma is_int_slot: "lb_wf lb \<Longrightarrow> l \<le> lb_n lb \<Longrightarrow> is_int (int l)"
  by (simp add: is_int_def lb_wf_def INT_MAX_def INT_MIN_def)

lemma size_t_of_slot: "lb_wf lb \<Longrightarrow> l \<le> lb_n lb \<Longrightarrow> size_t_of (int l) = l"
  by (rule size_t_of_nat) (simp add: lb_wf_def INT_MAX_def)

lemma acquire_loop_fast:
  assumes "lb_wf lb" "0 < lb_n lb" "is_int c"
    and "find (\<lambda>p. counter lb p = 0) (scan_order (lb_n lb) (size_t_of c) k) = Some p"
  shows "acquire_loop k lb c mu mi = Inr (int p, set_counter lb p 1, int p)"
  using assms(3,4)
proof (induction k arbitrary: c mu mi)
  case 0
  then show ?case by simp
next
  case (Suc k)
  define l1 where "l1 = (if lb_n lb \<le> size_t_of c then 0 else size_t_of c)"
  have l1n: "l1 < lb_n lb" using assms(2) by (simp add: l1_def)
  have nxt: "is_int (int (Suc l1))" "size_t_of (int (Suc l1)) = Suc l1"
    using is_int_slot [OF assms(1), of "Suc l1"] size_t_of_slot [OF assms(1), of "Suc l1"] l1n
    by simp_all
  note step = acquire_loop_Suc [OF assms(1,2) Suc.prems(1), of k mu mi, folded l1_def]
  have so: "scan_order (lb_n lb) (size_t_of c) (Suc k) = l1 # scan_order (lb_n lb) (Suc l1) k"
    by (simp add: l1_def Let_def)
  show ?case
  proof (cases "counter lb l1 = 0")
    case True
    with Suc.prems(2) have "p = l1" unfolding so by simp
    with True show ?thesis unfolding step by simp
  next
    case False
    with Suc.prems(2) have f: "find (\<lambda>p. counter lb p = 0) (scan_order (lb_n lb) (Suc l1) k) = Some p"
      unfolding so by simp
    have "acquire_loop k lb (int (Suc l1)) mu' mi' = Inr (int p, set_counter lb p 1, int p)" for mu' mi'
      using Suc.IH [OF nxt(1)] f unfolding nxt(2) by blast
    with False show ?thesis unfolding step by (simp del: acquire_loop.simps of_nat_Suc)
  qed
qed

lemma acquire_loop_slow:
  assumes "lb_wf lb" "0 < lb_n lb" "is_int c"
    and "find (\<lambda>p. counter lb p = 0) (scan_order (lb_n lb) (size_t_of c) k) = None"
  shows "\<exists>c1. is_int c1 \<and> acquire_loop k lb c mu mi =
     acquire_loop 0 lb c1
       (fst (min_scan lb (scan_order (lb_n lb) (size_t_of c) k) (mu, mi)))
       (snd (min_scan lb (scan_order (lb_n lb) (size_t_of c) k) (mu, mi)))"
  using assms(3,4)
proof (induction k arbitrary: c mu mi)
  case 0
  then show ?case by auto
next
  case (Suc k)
  define l1 where "l1 = (if lb_n lb \<le> size_t_of c then 0 else size_t_of c)"
  have l1n: "l1 < lb_n lb" using assms(2) by (simp add: l1_def)
  have nxt: "is_int (int (Suc l1))" "size_t_of (int (Suc l1)) = Suc l1"
    using is_int_slot [OF assms(1), of "Suc l1"] size_t_of_slot [OF assms(1), of "Suc l1"] l1n
    by simp_all
  note step = acquire_loop_Suc [OF assms(1,2) Suc.prems(1), of k mu mi, folded l1_def]
  have so: "scan_order (lb_n lb) (size_t_of c) (Suc k) = l1 # scan_order (lb_n lb) (Suc l1) k"
    by (simp add: l1_def Let_def)
  from Suc.prems(2) have nz: "counter lb l1 \<noteq> 0"
    and f: "find (\<lambda>p. counter lb p = 0) (scan_order (lb_n lb) (Suc l1) k) = None"
    unfolding so by (simp_all split: if_splits)
  note ih = Suc.IH [OF nxt(1), unfolded nxt(2), OF f]
  show ?case
  proof (cases "counter lb l1 < mu")
    case True
    with nz ih [of "counter lb l1" "int l1"] show ?thesis
      unfolding step so by (simp del: acquire_loop.simps of_nat_Suc)
  next
    case False
    with nz ih [of mu mi] show ?thesis
      unfolding step so by (simp del: acquire_loop.simps of_nat_Suc)
  qed
qed

lemma scan_order_upt: "l + k \<le> n \<Longrightarrow> l < n \<or> k = 0 \<Longrightarrow> scan_order n l k = [l..<l + k]"
proof (induction k arbitrary: l)
  case 0
  then show ?case by simp
next
  case (Suc k)
  then show ?case by (simp add: Let_def upt_rec [of l])
qed

lemma scan_order_append:
  "scan_order n l (j + k) = scan_order n l j @ scan_order n (if j = 0 then l else Suc (last (scan_order n l j))) k"
proof (induction j arbitrary: l)
  case 0
  then show ?case by simp
next
  case (Suc j)
  show ?case
    using Suc.IH [of "Suc (if n \<le> l then 0 else l)"]
    by (cases j) (simp_all add: Let_def)
qed

lemma scan_order_full:
  fixes n l :: nat
  assumes "0 < n"
  defines "c \<equiv> (if n \<le> l then 0 else l)"
  shows "scan_order n l n = [c..<n] @ [0..<c]"
proof -
  have cn: "c < n" using assms by simp
  have a: "scan_order n l (n - c) = [c..<n]"
  proof -
    have "scan_order n l (n - c) = scan_order n c (n - c)"
      using cn by (cases "n - c") (simp_all add: c_def Let_def)
    also have "\<dots> = [c..<n]" using scan_order_upt [of c "n - c" n] cn by simp
    finally show ?thesis .
  qed
  have "scan_order n l n = scan_order n l ((n - c) + c)" using cn by simp
  also have "\<dots> = [c..<n] @ scan_order n n c"
    using cn by (simp only: scan_order_append a) simp
  also have "scan_order n n c = [0..<c]"
  proof (cases c)
    case 0
    then show ?thesis by simp
  next
    case (Suc c')
    have "scan_order n n (Suc c') = 0 # scan_order n (Suc 0) c'" by (simp add: Let_def)
    also have "scan_order n (Suc 0) c' = [Suc 0..<Suc 0 + c']"
      using cn Suc by (intro scan_order_upt) auto
    finally show ?thesis using Suc by (simp add: upt_rec [of 0])
  qed
  finally show ?thesis .
qed


lemma set_scan_order_full: "0 < n \<Longrightarrow> set (scan_order n l n) = {0..<n}"
  by (auto simp: scan_order_full)

lemma counter_set_counter:
  "8 * p < length (lb_uses lb) \<Longrightarrow>
   counter (set_counter lb p v) i = (if i = p then v else counter lb i)"
  by (simp add: counter_def set_counter_def nth_list_update)

lemma lb_wf_set_counter [simp]: "lb_wf (set_counter lb p v) = lb_wf lb"
  by (simp add: lb_wf_def set_counter_def)

lemma lb_n_set_counter [simp]: "lb_n (set_counter lb p v) = lb_n lb"
  by (simp add: set_counter_def)

lemma slot_in_uses: "lb_wf lb \<Longrightarrow> p < lb_n lb \<Longrightarrow> 8 * p < length (lb_uses lb)"
  by (simp add: lb_wf_def)

lemma acquire_idle:
  assumes "lb_wf lb" "is_int c" "i < lb_n lb" "counter lb i = 0"
  shows "\<exists>p<lb_n lb. counter lb p = 0 \<and> acquire lb c = Inr (int p, set_counter lb p 1, int p)"
proof -
  have n0: "0 < lb_n lb" using assms(3) by simp
  let ?ps = "scan_order (lb_n lb) (size_t_of c) (lb_n lb)"
  have "i \<in> set ?ps" using assms(3) by (simp add: set_scan_order_full [OF n0])
  with assms(4) obtain p where f: "find (\<lambda>p. counter lb p = 0) ?ps = Some p"
    by (cases "find (\<lambda>p. counter lb p = 0) ?ps") (auto simp: find_None_iff)
  then have "p \<in> set ?ps" "counter lb p = 0"
    by (auto simp: find_Some_iff)
  then have "p < lb_n lb" by (simp add: set_scan_order_full [OF n0])
  with \<open>counter lb p = 0\<close> acquire_loop_fast [OF assms(1) n0 assms(2) f]
  show ?thesis by (auto simp: acquire_def)
qed

lemma acquire_many_idle:
  assumes "lb_wf lb" "is_int c"
    and "m + card {i. i < lb_n lb \<and> counter lb i \<noteq> 0} \<le> lb_n lb"
  shows "\<exists>idxs lb1 c1. acquire_many m lb c = Inr (idxs, lb1, c1) \<and> length idxs = m \<and>
     distinct idxs \<and> (\<forall>i\<in>set idxs. 0 \<le> i \<and> i < int (lb_n lb) \<and> counter lb (nat i) = 0)"
  using assms
proof (induction m arbitrary: lb c)
  case 0
  then show ?case by simp
next
  case (Suc m)
  let ?busy = "{i. i < lb_n lb \<and> counter lb i \<noteq> 0}"
  have fin: "finite ?busy" by simp
  have "card ?busy < lb_n lb" using Suc.prems(3) by simp
  have "\<exists>i<lb_n lb. counter lb i = 0"
  proof (rule ccontr)
    assume "\<not> (\<exists>i<lb_n lb. counter lb i = 0)"
    then have "?busy = {..<lb_n lb}" by blast
    then have "card ?busy = lb_n lb" by simp
    with \<open>card ?busy < lb_n lb\<close> show False by simp
  qed
  then obtain i where i: "i < lb_n lb" "counter lb i = 0" by blast
  from acquire_idle [OF Suc.prems(1,2) i] obtain p where
    p: "p < lb_n lb" "counter lb p = 0"
    and acq: "acquire lb c = Inr (int p, set_counter lb p 1, int p)" by blast
  let ?lb1 = "set_counter lb p 1"
  have inu: "8 * p < length (lb_uses lb)" using slot_in_uses [OF Suc.prems(1) p(1)] .
  have busy1: "{i. i < lb_n ?lb1 \<and> counter ?lb1 i \<noteq> 0} = insert p ?busy"
    using p by (auto simp: counter_set_counter [OF inu])
  have "p \<notin> ?busy" using p by simp
  then have "card (insert p ?busy) = Suc (card ?busy)" using fin by simp
  with Suc.prems(3) have le: "m + card {i. i < lb_n ?lb1 \<and> counter ?lb1 i \<noteq> 0} \<le> lb_n ?lb1"
    unfolding busy1 by simp
  have wf1: "lb_wf ?lb1" using Suc.prems(1) by simp
  have ip: "is_int (int p)" using is_int_slot [OF Suc.prems(1), of p] p(1) by simp
  from Suc.IH [OF wf1 ip le] obtain idxs lb2 c2 where
    run: "acquire_many m ?lb1 (int p) = Inr (idxs, lb2, c2)" and len: "length idxs = m"
    and dist: "distinct idxs"
    and all: "\<forall>i\<in>set idxs. 0 \<le> i \<and> i < int (lb_n lb) \<and> counter ?lb1 (nat i) = 0"
    by auto
  have notin: "int p \<notin> set idxs"
  proof
    assume "int p \<in> set idxs"
    with all have "counter ?lb1 p = 0" by fastforce
    then show False by (simp add: counter_set_counter [OF inu])
  qed
  have all0: "\<forall>i\<in>set idxs. 0 \<le> i \<and> i < int (lb_n lb) \<and> counter lb (nat i) = 0"
  proof
    fix i assume i: "i \<in> set idxs"
    with all have a: "0 \<le> i" "i < int (lb_n lb)" "counter ?lb1 (nat i) = 0" by auto
    from i notin a(1) have "nat i \<noteq> p" by auto
    with a show "0 \<le> i \<and> i < int (lb_n lb) \<and> counter lb (nat i) = 0"
      by (simp add: counter_set_counter [OF inu])
  qed
  show ?case
    using acq run len dist notin all0 p by simp
qed

lemma lb_wf_init: "8 * int n \<le> INT_MAX \<Longrightarrow> lb_wf (LoadBalancer_init n)"
  by (simp add: lb_wf_def LoadBalancer_init_def)

lemma counter_init: "i < n \<Longrightarrow> counter (LoadBalancer_init n) i = 0"
  by (simp add: counter_def LoadBalancer_init_def)

lemma min_scan_id:
  "\<forall>p\<in>set ps. \<not> counter lb p < mu \<Longrightarrow> min_scan lb ps (mu, mi) = (mu, mi)"
  by (induction ps) auto

lemma min_scan_first:
  assumes "\<exists>p\<in>set ps. counter lb p < mu"
  shows "\<exists>j<length ps. min_scan lb ps (mu, mi) = (counter lb (ps ! j), int (ps ! j)) \<and>
     counter lb (ps ! j) < mu \<and>
     (\<forall>p\<in>set ps. counter lb (ps ! j) \<le> counter lb p) \<and>
     (\<forall>i<j. counter lb (ps ! j) < counter lb (ps ! i))"
  using assms
proof (induction ps arbitrary: mu mi)
  case Nil
  then show ?case by simp
next
  case (Cons q ps)
  show ?case
  proof (cases "counter lb q < mu")
    case True
    show ?thesis
    proof (cases "\<exists>p\<in>set ps. counter lb p < counter lb q")
      case True
      from Cons.IH [OF True, of "int q"] obtain j where j: "j < length ps"
        "min_scan lb ps (counter lb q, int q) = (counter lb (ps ! j), int (ps ! j))"
        "counter lb (ps ! j) < counter lb q"
        "\<forall>p\<in>set ps. counter lb (ps ! j) \<le> counter lb p"
        "\<forall>i<j. counter lb (ps ! j) < counter lb (ps ! i)" by blast
      have "\<forall>i<Suc j. counter lb (ps ! j) < counter lb ((q # ps) ! i)"
        using j(3,5) by (auto simp: nth_Cons split: nat.splits)
      with j \<open>counter lb q < mu\<close> show ?thesis
        by (intro exI [of _ "Suc j"]) auto
    next
      case False
      then have "min_scan lb ps (counter lb q, int q) = (counter lb q, int q)"
        by (intro min_scan_id) simp
      with False \<open>counter lb q < mu\<close> show ?thesis
        by (intro exI [of _ 0]) (auto simp: not_less)
    qed
  next
    case False
    with Cons.prems have ex: "\<exists>p\<in>set ps. counter lb p < mu" by auto
    from Cons.IH [OF ex, of mi] obtain j where j: "j < length ps"
        "min_scan lb ps (mu, mi) = (counter lb (ps ! j), int (ps ! j))"
        "counter lb (ps ! j) < mu"
        "\<forall>p\<in>set ps. counter lb (ps ! j) \<le> counter lb p"
        "\<forall>i<j. counter lb (ps ! j) < counter lb (ps ! i)" by blast
    have lt: "counter lb (ps ! j) < counter lb q" using j(3) False by simp
    then have "\<forall>i<Suc j. counter lb (ps ! j) < counter lb ((q # ps) ! i)"
      using j(5) by (auto simp: nth_Cons split: nat.splits)
    with j lt False show ?thesis
      by (intro exI [of _ "Suc j"]) auto
  qed
qed

lemma min_scan_idx:
  "snd (min_scan lb ps (mu, mi)) = mi \<or> (\<exists>p\<in>set ps. snd (min_scan lb ps (mu, mi)) = int p)"
  by (induction ps arbitrary: mu mi) (simp, fastforce)

lemma acquire_loop_0_slot:
  assumes "lb_wf lb" "p < lb_n lb"
  shows "acquire_loop 0 lb c mu (int p) = Inr (int p, set_counter lb p (counter lb p + 1), c)"
  by (simp add: uses_index_slot [OF assms] set_counter_def counter_def)

lemma acquire_total:
  assumes "lb_wf lb" "0 < lb_n lb" "is_int c"
  shows "\<exists>p<lb_n lb. \<exists>c1. is_int c1 \<and>
     acquire lb c = Inr (int p, set_counter lb p (counter lb p + 1), c1)"
proof (cases "find (\<lambda>p. counter lb p = 0) (scan_order (lb_n lb) (size_t_of c) (lb_n lb))")
  case None
  let ?ps = "scan_order (lb_n lb) (size_t_of c) (lb_n lb)"
  from acquire_loop_slow [OF assms None, of SIZE_MAX 0] obtain c1 where c1: "is_int c1"
    and eq: "acquire lb c = acquire_loop 0 lb c1 (fst (min_scan lb ?ps (SIZE_MAX, 0)))
       (snd (min_scan lb ?ps (SIZE_MAX, 0)))"
    by (auto simp: acquire_def)
  from min_scan_idx [of lb ?ps SIZE_MAX 0] obtain p where
    p: "p < lb_n lb" "snd (min_scan lb ?ps (SIZE_MAX, 0)) = int p"
    using assms(2) by (auto simp: set_scan_order_full)
  show ?thesis
    using c1 p(1) unfolding eq p(2) acquire_loop_0_slot [OF assms(1) p(1)] by blast
next
  case (Some p)
  then have p: "p < lb_n lb" "counter lb p = 0"
    using assms(2) by (auto simp: find_Some_iff set_scan_order_full dest: nth_mem)
  have "acquire lb c = Inr (int p, set_counter lb p 1, int p)"
    using acquire_loop_fast [OF assms Some] by (simp add: acquire_def)
  moreover have "is_int (int p)" using is_int_slot [OF assms(1), of p] p(1) by simp
  ultimately show ?thesis using p by auto
qed

lemma free_slot:
  assumes "lb_wf lb" "p < lb_n lb"
  shows "free lb (int p) = Inr (set_counter lb p (counter lb p - 1))"
  by (simp add: free_def uses_index_slot [OF assms] set_counter_def counter_def)

lemma tally_Nil [simp]: "tally [] i = 0"
  by (simp add: tally_def)

lemma tally_Acquired: "tally (Acquired a # evs) i = tally evs i + (if a = int i then 1 else 0)"
  by (simp add: tally_def)

lemma tally_Freed: "tally (Freed a # evs) i = tally evs i - (if a = int i then 1 else 0)"
  by (simp add: tally_def)

lemma uint_succ: "uint (x :: u64) + 1 < 2 ^ 64 \<Longrightarrow> uint (x + 1) = uint x + 1"
  by (simp add: uint_word_ariths take_bit_int_eq_self)

lemma uint_pred: "(x :: u64) \<noteq> 0 \<Longrightarrow> uint (x - 1) = uint x - 1"
proof -
  assume "x \<noteq> 0"
  then have "uint x \<noteq> 0" by (simp add: uint_0_iff)
  moreover have "0 \<le> uint x" by (rule uint_nonnegative)
  ultimately have "1 \<le> uint x" by linarith
  then have "uint (1 :: u64) \<le> uint x" by simp
  then have "uint (x - 1) = uint x - uint (1 :: u64)" by (simp only: uint_sub_lem)
  then show ?thesis by simp
qed

lemma frees_matched_take: "frees_matched ops lb c \<Longrightarrow> frees_matched (take k ops) lb c"
proof (induction ops lb c arbitrary: k rule: frees_matched.induct)
  case (1 lb cur)
  then show ?case by simp
next
  case (2 ops lb cur)
  then show ?case by (cases k) (auto split: sum.splits)
next
  case (3 w ops lb cur)
  then show ?case by (cases k) (auto split: sum.splits)
qed

lemma lb_run_counters:
  assumes "lb_wf lb" "0 < lb_n lb" "is_int c" "frees_matched ops lb c"
    and "\<forall>i<lb_n lb. uint (counter lb i) + int (length ops) < 2 ^ 64"
  shows "\<exists>evs lb1 c1. lb_run ops lb c = Inr (evs, lb1, c1) \<and>
     (\<forall>i<lb_n lb. uint (counter lb1 i) = uint (counter lb i) + tally evs i)"
  using assms
proof (induction ops arbitrary: lb c)
  case Nil
  then show ?case by simp
next
  case (Cons op ops)
  show ?case
  proof (cases op)
    case Acquire
    from acquire_total [OF Cons.prems(1,2,3)] obtain p c1 where p: "p < lb_n lb"
      and c1: "is_int c1"
      and acq: "acquire lb c = Inr (int p, set_counter lb p (counter lb p + 1), c1)" by blast
    let ?lb1 = "set_counter lb p (counter lb p + 1)"
    have inu: "8 * p < length (lb_uses lb)" using slot_in_uses [OF Cons.prems(1) p] .
    have "uint (counter lb p) + int (length (op # ops)) < 2 ^ 64"
      using Cons.prems(5) p by blast
    then have "uint (counter lb p) + 1 < 2 ^ 64" by simp
    then have up: "uint (counter lb p + 1) = uint (counter lb p) + 1"
      by (rule uint_succ)
    have fm: "frees_matched ops ?lb1 c1" using Cons.prems(4) by (simp add: Acquire acq)
    have bd: "\<forall>i<lb_n ?lb1. uint (counter ?lb1 i) + int (length ops) < 2 ^ 64"
      using Cons.prems(5) up by (auto simp: counter_set_counter [OF inu])
    from Cons.IH [OF _ _ c1 fm bd] Cons.prems(1,2) obtain evs lb2 c2 where
      run: "lb_run ops ?lb1 c1 = Inr (evs, lb2, c2)"
      and cnt: "\<forall>i<lb_n lb. uint (counter lb2 i) = uint (counter ?lb1 i) + tally evs i"
      by auto
    have "lb_run (op # ops) lb c = Inr (Acquired (int p) # evs, lb2, c2)"
      by (simp add: Acquire acq run)
    moreover have "\<forall>i<lb_n lb. uint (counter lb2 i) =
        uint (counter lb i) + tally (Acquired (int p) # evs) i"
      using cnt up by (auto simp: counter_set_counter [OF inu] tally_Acquired)
    ultimately show ?thesis by blast
  next
    case (Free w)
    from Cons.prems(4) have w: "0 \<le> w" "w < int (lb_n lb)" "counter lb (nat w) \<noteq> 0"
      by (simp_all add: Free)
    define p where "p = nat w"
    have p: "p < lb_n lb" "int p = w" "counter lb p \<noteq> 0" using w by (simp_all add: p_def)
    let ?lb1 = "set_counter lb p (counter lb p - 1)"
    have fr: "free lb w = Inr ?lb1" using free_slot [OF Cons.prems(1) p(1)] by (simp add: p(2))
    have inu: "8 * p < length (lb_uses lb)" using slot_in_uses [OF Cons.prems(1) p(1)] .
    have down: "uint (counter lb p - 1) = uint (counter lb p) - 1"
      using p(3) by (rule uint_pred)
    have fm: "frees_matched ops ?lb1 c" using Cons.prems(4) by (simp add: Free fr)
    have bd: "\<forall>i<lb_n ?lb1. uint (counter ?lb1 i) + int (length ops) < 2 ^ 64"
      using Cons.prems(5) down by (auto simp: counter_set_counter [OF inu])
    from Cons.IH [OF _ _ Cons.prems(3) fm bd] Cons.prems(1,2) obtain evs lb2 c2 where
      run: "lb_run ops ?lb1 c = Inr (evs, lb2, c2)"
      and cnt: "\<forall>i<lb_n lb. uint (counter lb2 i) = uint (counter ?lb1 i) + tally evs i"
      by auto
    have "lb_run (op # ops) lb c = Inr (Freed w # evs, lb2, c2)"
      by (simp add: Free fr run)
    moreover have "\<forall>i<lb_n lb. uint (counter lb2 i) =
        uint (counter lb i) + tally (Freed w # evs) i"
      using cnt down p(2) by (auto simp: counter_set_counter [OF inu] tally_Freed)
    ultimately show ?thesis by blast
  qed
qed

lemma SIZE_MAX_minus1: "SIZE_MAX = - 1"
  by (simp add: SIZE_MAX_def)

lemma least_loaded_first_eq:
  assumes "0 < lb_n lb"
  shows "least_loaded_first lb c =
     find (\<lambda>p. \<forall>q<lb_n lb. counter lb p \<le> counter lb q)
       (scan_order (lb_n lb) (size_t_of c) (lb_n lb))"
proof -
  have so: "scan_order (lb_n lb) (size_t_of c) (lb_n lb) = scan_from lb c"
    using scan_order_full [OF assms, of "size_t_of c"] by (simp add: scan_from_def Let_def)
  have "set (scan_from lb c) = {0..<lb_n lb}"
    using set_scan_order_full [OF assms, of "size_t_of c"] unfolding so .
  then show ?thesis
    unfolding so least_loaded_first_def by (simp add: Ball_def)
qed

section \<open>Properties of construction and teardown\<close>

lemma search_loop_find:
  "search_loop d ss =
     (case find (\<lambda>s. d (start_sym s) \<noteq> 0) ss of
        None \<Rightarrow> (0, 0, False)
      | Some s \<Rightarrow> (d (start_sym s), d (end_sym s), custom_loader s))"
  by (induction ss) (simp_all add: Let_def)

lemma Interpreter_ctor_handle:
  "Interpreter_ctor P new_impl mgr = Inr I \<Longrightarrow> handle I \<noteq> 0 \<and> pImpl I = new_impl"
  by (auto simp: Interpreter_ctor_def Let_def split: if_splits sum.splits)

section \<open>Properties of the pool, sessions and movable objects\<close>

lemma rethrow_Inr [simp]: "TORCH_DEPLOY_SAFE_CATCH_RETHROW (Inr v) = Inr v"
  by (simp add: TORCH_DEPLOY_SAFE_CATCH_RETHROW_def)

lemma rethrow_Inl [simp]: "TORCH_DEPLOY_SAFE_CATCH_RETHROW (Inl e) = Inl (Rethrown e)"
  by (simp add: TORCH_DEPLOY_SAFE_CATCH_RETHROW_def)

lemma InterpreterSession_dtor_pinned:
  "InterpreterSession_dtor m (Interpreter_acquire_session I k) = ([], Inr m)"
  by (simp add: InterpreterSession_dtor_def Interpreter_acquire_session_def)

lemma unload_on_pool:
  assumes "k < length (instances m)" "pImpl (instances m ! k) \<noteq> None"
  shows "unload_on m obj k =
     ([AcquireSession k, Unload k (object_id obj)],
      Inr (m\<lparr>instances := (instances m)[k := evicted (object_id obj) (instances m ! k)]\<rparr>))"
  using assms
  by (auto simp: unload_on_def Let_def InterpreterSession_dtor_pinned evicted_def)

lemma unload_on_next_object_id:
  "unload_on m obj k = (evs, Inr m1) \<Longrightarrow> next_object_id m1 = next_object_id m"
  by (auto simp: unload_on_def Let_def InterpreterSession_dtor_pinned split: if_splits option.splits)

lemma unload_all_next_object_id:
  "unload_all obj ks m = (evs, Inr m1) \<Longrightarrow> next_object_id m1 = next_object_id m"
proof (induction ks arbitrary: m evs)
  case Nil
  then show ?case by simp
next
  case (Cons k ks)
  obtain e1 r1 where u: "unload_on m obj k = (e1, r1)" by (cases "unload_on m obj k")
  show ?case
  proof (cases r1)
    case (Inl e)
    with Cons.prems u show ?thesis by simp
  next
    case (Inr m2)
    obtain e2 r2 where a: "unload_all obj ks m2 = (e2, r2)" by (cases "unload_all obj ks m2")
    with Cons.prems u Inr have "r2 = Inr m1" by simp
    with Cons.IH a have "next_object_id m1 = next_object_id m2" by blast
    with unload_on_next_object_id u Inr show ?thesis by metis
  qed
qed

lemma dtor_next_object_id:
  "ReplicatedObjImpl_dtor m obj = (evs, Inr m1) \<Longrightarrow> next_object_id m1 = next_object_id m"
proof -
  assume a: "ReplicatedObjImpl_dtor m obj = (evs, Inr m1)"
  obtain e r where u: "unload_all obj [0..<length (instances m)] m = (e, r)"
    by (cases "unload_all obj [0..<length (instances m)] m")
  from a u have "r = Inr m1"
    by (cases r) (auto simp: ReplicatedObjImpl_dtor_def ReplicatedObjImpl_unload_def split: if_splits)
  with u unload_all_next_object_id show ?thesis by blast
qed

lemma from_movable_next_object_id:
  "from_movable unpickle m s h = Inr (v, m1) \<Longrightarrow> next_object_id m1 = next_object_id m"
  by (auto simp: from_movable_def split: if_splits option.splits prod.splits)

lemma pool_run_ids:
  "fst (pool_run pickle unpickle ops m) =
     [next_object_id m..<next_object_id m + length (fst (pool_run pickle unpickle ops m))]"
proof (induction ops arbitrary: m)
  case Nil
  then show ?case by simp
next
  case (Cons op ops)
  show ?case
  proof (cases op)
    case (CreateMovable s obj)
    show ?thesis
    proof (cases "sess_manager s")
      case False
      with Cons.IH [of m] show ?thesis by (simp add: CreateMovable create_movable_def)
    next
      case True
      show ?thesis
      proof (cases "pickle (self s) obj")
        case (Inl msg)
        with True Cons.IH [of m] show ?thesis by (simp add: CreateMovable create_movable_def)
      next
        case (Inr pickled)
        let ?h = "\<lparr>object_id = next_object_id m, data = pickled, obj_manager = True\<rparr>"
        let ?m1 = "m\<lparr>next_object_id := next_object_id m + 1\<rparr>"
        have cm: "create_movable pickle m s obj = (Inr ?h, ?m1)"
          using True Inr by (simp add: create_movable_def)
        obtain ids m2 where r: "pool_run pickle unpickle ops ?m1 = (ids, m2)"
          by (cases "pool_run pickle unpickle ops ?m1")
        have nm: "next_object_id ?m1 = Suc (next_object_id m)" by simp
        have "fst (pool_run pickle unpickle ops ?m1) =
            [next_object_id ?m1..<next_object_id ?m1 +
               length (fst (pool_run pickle unpickle ops ?m1))]"
          by (rule Cons.IH)
        then have ids: "ids = [Suc (next_object_id m)..<Suc (next_object_id m) + length ids]"
          unfolding r nm fst_conv .
        have "[next_object_id m..<next_object_id m + Suc (length ids)] =
            next_object_id m # [Suc (next_object_id m)..<Suc (next_object_id m) + length ids]"
          by (simp add: upt_conv_Cons del: upt_Suc)
        with ids have "next_object_id m # ids =
            [next_object_id m..<next_object_id m + Suc (length ids)]"
          by simp
        with cm r show ?thesis by (simp add: CreateMovable del: upt_Suc)
      qed
    qed
  next
    case (FromMovable s h)
    show ?thesis
    proof (cases "from_movable unpickle m s h")
      case (Inl e)
      with Cons.IH [of m] show ?thesis by (simp add: FromMovable)
    next
      case (Inr p)
      obtain v m1 where p: "p = (v, m1)" by (cases p)
      from Inr p have "next_object_id m1 = next_object_id m"
        using from_movable_next_object_id by blast
      with Cons.IH [of m1] Inr p show ?thesis by (simp add: FromMovable)
    qed
  next
    case (DestroyMovable h)
    obtain evs r where d: "ReplicatedObjImpl_dtor m h = (evs, r)"
      by (cases "ReplicatedObjImpl_dtor m h")
    show ?thesis
    proof (cases r)
      case (Inl e)
      with d show ?thesis by (simp add: DestroyMovable)
    next
      case (Inr m1)
      with d have "next_object_id m1 = next_object_id m"
        using dtor_next_object_id by blast
      with Cons.IH [of m1] d Inr show ?thesis by (simp add: DestroyMovable)
    qed
  qed
qed

lemma pImpl_evicted: "pImpl (evicted i I) \<noteq> None \<longleftrightarrow> pImpl I \<noteq> None"
  by (simp add: evicted_def)

lemma not_materialized_evicted: "\<not> materialized (evicted i I) i"
  by (auto simp: materialized_def evicted_def impl_unload_def split: option.splits)

lemma materialized_evicted_other:
  "j \<noteq> i \<Longrightarrow> materialized (evicted i I) j = materialized I j"
  by (force simp: materialized_def evicted_def impl_unload_def split: option.splits)

lemma evicted_absent: "\<not> materialized I i \<Longrightarrow> evicted i I = I"
proof -
  assume a: "\<not> materialized I i"
  show ?thesis
  proof (cases "pImpl I")
    case None
    then show ?thesis by (simp add: evicted_def)
  next
    case (Some impl)
    with a have "\<forall>e\<in>set (objects impl). fst e \<noteq> i"
      by (auto simp: materialized_def)
    then have "filter (\<lambda>e. fst e \<noteq> i) (objects impl) = objects impl"
      by (simp add: filter_id_conv)
    with Some show ?thesis by (simp add: evicted_def impl_unload_def)
  qed
qed

lemma unload_all_from:
  assumes "list_all (\<lambda>I. pImpl I \<noteq> None) (drop j (instances m))" "j \<le> length (instances m)"
  shows "unload_all obj [j..<length (instances m)] m =
     (concat (map (\<lambda>k. [AcquireSession k, Unload k (object_id obj)]) [j..<length (instances m)]),
      Inr (m\<lparr>instances := take j (instances m) @
                             map (evicted (object_id obj)) (drop j (instances m))\<rparr>))"
  using assms
proof (induction "length (instances m) - j" arbitrary: j m)
  case 0
  then show ?case by simp
next
  case (Suc d)
  then have jl: "j < length (instances m)" by simp
  let ?I = "instances m ! j"
  let ?m1 = "m\<lparr>instances := (instances m)[j := evicted (object_id obj) ?I]\<rparr>"
  have dj: "drop j (instances m) = ?I # drop (Suc j) (instances m)"
    using jl by (simp add: Cons_nth_drop_Suc)
  from Suc.prems(1) have pj: "pImpl ?I \<noteq> None"
    and rest: "list_all (\<lambda>I. pImpl I \<noteq> None) (drop (Suc j) (instances m))"
    unfolding dj by simp_all
  have u: "unload_on m obj j = ([AcquireSession j, Unload j (object_id obj)], Inr ?m1)"
    using unload_on_pool [OF jl pj] .
  have len1: "length (instances ?m1) = length (instances m)" by simp
  have d1: "drop (Suc j) (instances ?m1) = drop (Suc j) (instances m)" by simp
  have t1: "take (Suc j) (instances ?m1) = take j (instances m) @ [evicted (object_id obj) ?I]"
    using jl by (simp add: take_Suc_conv_app_nth)
  have ih: "unload_all obj [Suc j..<length (instances ?m1)] ?m1 =
     (concat (map (\<lambda>k. [AcquireSession k, Unload k (object_id obj)])
        [Suc j..<length (instances ?m1)]),
      Inr (?m1\<lparr>instances := take (Suc j) (instances ?m1) @
              map (evicted (object_id obj)) (drop (Suc j) (instances ?m1))\<rparr>))"
  proof (rule Suc.hyps(1))
    show "d = length (instances ?m1) - Suc j" using Suc.hyps(2) by simp
    show "list_all (\<lambda>I. pImpl I \<noteq> None) (drop (Suc j) (instances ?m1))"
      using rest unfolding d1 .
    show "Suc j \<le> length (instances ?m1)" using jl by simp
  qed
  have up: "[j..<length (instances m)] = j # [Suc j..<length (instances m)]"
    using jl by (simp add: upt_conv_Cons)
  show ?case
    unfolding up unload_all.simps u
    using ih unfolding len1 t1 d1
    by (simp add: dj)
qed

lemma unload_all_pool:
  assumes "list_all (\<lambda>I. pImpl I \<noteq> None) (instances m)"
  shows "unload_all obj [0..<length (instances m)] m =
     (concat (map (\<lambda>k. [AcquireSession k, Unload k (object_id obj)]) [0..<length (instances m)]),
      Inr (m\<lparr>instances := map (evicted (object_id obj)) (instances m)\<rparr>))"
  using unload_all_from [of 0 m obj] assms by simp

lemma set_counter_twice:
  "set_counter (set_counter lb p v) p w = set_counter lb p w"
  by (simp add: set_counter_def)

lemma set_counter_same:
  "set_counter lb p (counter lb p) = lb"
  by (simp add: set_counter_def counter_def)

text \<open>
  Claim C1. On a balancer over a pool of \<open>n\<close> slots whose counters are all 0, as a new
  balancer has them, \<open>m \<le> n\<close> consecutive calls of \<^verbatim>\<open>acquire\<close> by one caller, with no call
  of \<^verbatim>\<open>free\<close> in between, all return, and they return \<open>m\<close> pairwise distinct indices, each
  at least 0 and below \<open>n\<close>; in particular for \<open>m = n\<close>. The cursor of the caller may hold
  any \<^verbatim>\<open>int\<close> at the first call.
\<close>

theorem acquire_many_distinct:
  assumes "lb_wf lb" "\<forall>i<lb_n lb. counter lb i = 0" "is_int c" "m \<le> lb_n lb"
  shows "\<exists>idxs lb1 c1. acquire_many m lb c = Inr (idxs, lb1, c1) \<and>
     length idxs = m \<and> distinct idxs \<and> (\<forall>i\<in>set idxs. 0 \<le> i \<and> i < int (lb_n lb))"
proof -
  have e: "{i. i < lb_n lb \<and> counter lb i \<noteq> 0} = {}"
    using assms(2) by blast
  have "m + card {i. i < lb_n lb \<and> counter lb i \<noteq> 0} \<le> lb_n lb"
    unfolding e using assms(4) by simp
  from acquire_many_idle [OF assms(1,3) this]
  show ?thesis by blast
qed

theorem acquire_many_distinct_witness:
  "(lb_wf (LoadBalancer_init 3) \<and> is_int 0) \<and>
   (\<exists>idxs lb1 c1. acquire_many 3 (LoadBalancer_init 3) 0 = Inr (idxs, lb1, c1) \<and>
      length idxs = 3 \<and> distinct idxs \<and> (\<forall>i\<in>set idxs. 0 \<le> i \<and> i < int 3))"
proof -
  have wf: "lb_wf (LoadBalancer_init 3)"
    by (rule lb_wf_init) (simp add: INT_MAX_def)
  have n: "lb_n (LoadBalancer_init 3) = 3" by (simp add: LoadBalancer_init_def)
  have idle: "\<forall>i<lb_n (LoadBalancer_init 3). counter (LoadBalancer_init 3) i = 0"
    by (simp add: n counter_init)
  have c: "is_int 0" by (simp add: is_int_def INT_MIN_def INT_MAX_def)
  from acquire_many_distinct [OF wf idle c, of 3] wf c show ?thesis
    unfolding n by simp
qed

text \<open>
  Claim C2, as amended. The counters are unsigned 64-bit values and \<^verbatim>\<open>free\<close> subtracts 1
  with no guard. In a run that starts on a balancer of at least one slot with all
  counters 0, as on a new balancer, and in which every \<^verbatim>\<open>free(w)\<close> is given a slot whose
  counter is not 0 at that moment, every call returns, and after every prefix of the run
  the counter of every slot is exactly the number of calls of \<^verbatim>\<open>acquire\<close> that returned
  the slot minus the number of calls of \<^verbatim>\<open>free\<close> on it, which is not negative: no counter
  wraps.
\<close>

theorem counters_count_users:
  assumes "lb_wf lb" "0 < lb_n lb" "\<forall>i<lb_n lb. counter lb i = 0" "is_int c"
    and "frees_matched ops lb c" "length ops < 2 ^ 64"
  shows "\<exists>evs lb1 c1. lb_run (take k ops) lb c = Inr (evs, lb1, c1) \<and>
     (\<forall>i<lb_n lb. uint (counter lb1 i) = tally evs i \<and> 0 \<le> tally evs i)"
proof -
  have bd: "\<forall>i<lb_n lb. uint (counter lb i) + int (length (take k ops)) < 2 ^ 64"
  proof (intro allI impI)
    fix i assume "i < lb_n lb"
    then have "uint (counter lb i) = 0" using assms(3) by simp
    moreover have "length (take k ops) \<le> length ops" by simp
    moreover have "int (length ops) < 2 ^ 64" using assms(6) by (simp flip: of_nat_less_iff)
    ultimately show "uint (counter lb i) + int (length (take k ops)) < 2 ^ 64"
      by linarith
  qed
  from lb_run_counters [OF assms(1,2,4) frees_matched_take [OF assms(5)] bd]
  obtain evs lb1 c1 where run: "lb_run (take k ops) lb c = Inr (evs, lb1, c1)"
    and cnt: "\<forall>i<lb_n lb. uint (counter lb1 i) = uint (counter lb i) + tally evs i"
    by blast
  have "\<forall>i<lb_n lb. uint (counter lb1 i) = tally evs i \<and> 0 \<le> tally evs i"
  proof (intro allI impI)
    fix i assume i: "i < lb_n lb"
    with cnt have "uint (counter lb1 i) = uint (counter lb i) + tally evs i" by blast
    moreover from i assms(3) have "uint (counter lb i) = 0" by simp
    ultimately have "uint (counter lb1 i) = tally evs i" by simp
    moreover have "0 \<le> uint (counter lb1 i)" by simp
    ultimately show "uint (counter lb1 i) = tally evs i \<and> 0 \<le> tally evs i"
      by simp
  qed
  with run show ?thesis by blast
qed

theorem counters_count_users_witness:
  "(lb_wf (LoadBalancer_init 2) \<and> is_int 0 \<and>
    frees_matched [Acquire, Acquire, Free 0, Acquire] (LoadBalancer_init 2) 0) \<and>
   (\<exists>evs lb1 c1. lb_run (take 4 [Acquire, Acquire, Free 0, Acquire]) (LoadBalancer_init 2) 0 =
        Inr (evs, lb1, c1) \<and>
      (\<forall>i<2. uint (counter lb1 i) = tally evs i \<and> 0 \<le> tally evs i))"
proof -
  have wf: "lb_wf (LoadBalancer_init 2)"
    by (rule lb_wf_init) (simp add: INT_MAX_def)
  have n: "lb_n (LoadBalancer_init 2) = 2" by (simp add: LoadBalancer_init_def)
  have idle: "\<forall>i<lb_n (LoadBalancer_init 2). counter (LoadBalancer_init 2) i = 0"
    by (simp add: n counter_init)
  have c: "is_int 0" by (simp add: is_int_def INT_MIN_def INT_MAX_def)
  have fm: "frees_matched [Acquire, Acquire, Free 0, Acquire] (LoadBalancer_init 2) 0"
    by code_simp
  have len: "length [Acquire, Acquire, Free 0, Acquire] < 2 ^ 64" by simp
  from counters_count_users [OF wf _ idle c fm len, of 4] wf c fm show ?thesis
    unfolding n by simp
qed

text \<open>
  Claim C2 as stated includes \<^verbatim>\<open>free\<close> on a slot whose counter is 0. There the counter
  does not stay a count: on a fresh balancer of one slot, \<^verbatim>\<open>free(0)\<close> leaves
  \<^verbatim>\<open>2^64 - 1\<close> in the counter, which is \<open>-1\<close> as a signed 64-bit value, and the number of users
  of the slot (acquisitions minus releases) is \<open>-1\<close>.
\<close>

theorem free_idle_counterexample:
  "lb_run [Free 0] (LoadBalancer_init 1) 0 =
     Inr ([Freed 0], \<lparr>lb_uses = [SIZE_MAX, 0, 0, 0, 0, 0, 0, 0], lb_n = 1\<rparr>, 0) \<and>
   counter \<lparr>lb_uses = [SIZE_MAX, 0, 0, 0, 0, 0, 0, 0], lb_n = 1\<rparr> 0 = 18446744073709551615 \<and>
   sint (counter \<lparr>lb_uses = [SIZE_MAX, 0, 0, 0, 0, 0, 0, 0], lb_n = 1\<rparr> 0) = - 1 \<and>
   tally [Freed 0] 0 = - 1"
  by code_simp

text \<open>
  Claim C3, as amended. On a pool of at least one slot, when no slot is idle and at least
  one counter is below \<^verbatim>\<open>SIZE_MAX\<close>, \<^verbatim>\<open>acquire\<close> returns the first slot, in scan order from
  the caller's cursor, whose counter is the smallest; the counter of that slot is
  incremented by 1 without wrapping, and no other counter changes.
\<close>

theorem acquire_slow_path:
  assumes "lb_wf lb" "is_int c" "0 < lb_n lb"
    and busy: "\<forall>i<lb_n lb. counter lb i \<noteq> 0"
    and below: "\<exists>i<lb_n lb. counter lb i < SIZE_MAX"
  shows "\<exists>p<lb_n lb. \<exists>c1. least_loaded_first lb c = Some p \<and>
     acquire lb c = Inr (int p, set_counter lb p (counter lb p + 1), c1) \<and>
     uint (counter lb p + 1) = uint (counter lb p) + 1 \<and>
     (\<forall>i. i \<noteq> p \<longrightarrow> counter (set_counter lb p (counter lb p + 1)) i = counter lb i)"
proof -
  let ?ps = "scan_order (lb_n lb) (size_t_of c) (lb_n lb)"
  have set: "set ?ps = {0..<lb_n lb}"
    using set_scan_order_full [OF assms(3)] .
  have none: "find (\<lambda>p. counter lb p = 0) ?ps = None"
    using busy by (simp add: find_None_iff set)
  from acquire_loop_slow [OF assms(1,3,2) none, of SIZE_MAX 0] obtain c1 where
    eq: "acquire lb c = acquire_loop 0 lb c1 (fst (min_scan lb ?ps (SIZE_MAX, 0)))
       (snd (min_scan lb ?ps (SIZE_MAX, 0)))"
    by (auto simp: acquire_def)
  have "\<exists>p\<in>set ?ps. counter lb p < SIZE_MAX" using below unfolding set by auto
  from min_scan_first [OF this, of 0] obtain j where j: "j < length ?ps"
     "min_scan lb ?ps (SIZE_MAX, 0) = (counter lb (?ps ! j), int (?ps ! j))"
     "counter lb (?ps ! j) < SIZE_MAX"
     "\<forall>p\<in>set ?ps. counter lb (?ps ! j) \<le> counter lb p"
     "\<forall>i<j. counter lb (?ps ! j) < counter lb (?ps ! i)" by blast
  define p where "p = ?ps ! j"
  have pn: "p < lb_n lb" using nth_mem [OF j(1)] unfolding p_def set by simp
  have inu: "8 * p < length (lb_uses lb)" using slot_in_uses [OF assms(1) pn] .
  have acq: "acquire lb c = Inr (int p, set_counter lb p (counter lb p + 1), c1)"
    unfolding eq j(2) p_def [symmetric] using acquire_loop_0_slot [OF assms(1) pn] by simp
  have "uint (counter lb p) < uint SIZE_MAX"
    using j(3) by (simp add: p_def word_less_def)
  then have "uint (counter lb p) + 1 < 2 ^ 64" by (simp add: SIZE_MAX_def)
  then have nowrap: "uint (counter lb p + 1) = uint (counter lb p) + 1"
    by (rule uint_succ)
  have others: "\<forall>i. i \<noteq> p \<longrightarrow> counter (set_counter lb p (counter lb p + 1)) i = counter lb i"
    by (simp add: counter_set_counter [OF inu])
  have min: "\<forall>q<lb_n lb. counter lb p \<le> counter lb q"
    using j(4) unfolding p_def set by simp
  have earlier: "\<forall>i<j. \<not> (\<forall>q<lb_n lb. counter lb (?ps ! i) \<le> counter lb q)"
  proof (intro allI impI notI)
    fix i assume "i < j" and a: "\<forall>q<lb_n lb. counter lb (?ps ! i) \<le> counter lb q"
    from a pn have "counter lb (?ps ! i) \<le> counter lb p" by blast
    moreover from j(5) \<open>i < j\<close> have "counter lb p < counter lb (?ps ! i)" by (simp add: p_def)
    ultimately show False by simp
  qed
  have "find (\<lambda>p. \<forall>q<lb_n lb. counter lb p \<le> counter lb q) ?ps = Some p"
    unfolding find_Some_iff using j(1) min earlier p_def by blast
  then have first: "least_loaded_first lb c = Some p"
    by (simp add: least_loaded_first_eq [OF assms(3)])
  show ?thesis
    using pn first acq nowrap others by blast
qed

theorem acquire_slow_path_witness:
  "let lb = \<lparr>lb_uses = [3, 0, 0, 0, 0, 0, 0, 0, 2, 0, 0, 0, 0, 0, 0, 0, 2, 0, 0, 0, 0, 0, 0, 0],
              lb_n = 3\<rparr>
   in (lb_wf lb \<and> is_int 2 \<and> (\<forall>i<lb_n lb. counter lb i \<noteq> 0) \<and>
       (\<exists>i<lb_n lb. counter lb i < SIZE_MAX)) \<and>
      (\<exists>p<lb_n lb. \<exists>c1. least_loaded_first lb 2 = Some p \<and>
         acquire lb 2 = Inr (int p, set_counter lb p (counter lb p + 1), c1) \<and>
         uint (counter lb p + 1) = uint (counter lb p) + 1 \<and>
         (\<forall>i. i \<noteq> p \<longrightarrow> counter (set_counter lb p (counter lb p + 1)) i = counter lb i))"
proof -
  define lb where "lb = \<lparr>lb_uses = [3, 0, 0, 0, 0, 0, 0, 0, 2, 0, 0, 0, 0, 0, 0, 0, 2 :: u64, 0, 0, 0, 0, 0, 0, 0],
              lb_n = 3\<rparr>"
  have wf: "lb_wf lb" by (simp add: lb_def lb_wf_def INT_MAX_def)
  have c: "is_int 2" by (simp add: is_int_def INT_MIN_def INT_MAX_def)
  have n: "0 < lb_n lb" by (simp add: lb_def)
  have busy: "\<forall>i<lb_n lb. counter lb i \<noteq> 0"
    by (simp add: lb_def counter_def numeral_3_eq_3 All_less_Suc)
  have below: "\<exists>i<lb_n lb. counter lb i < SIZE_MAX"
    by (rule exI [of _ 0]) (simp add: lb_def counter_def SIZE_MAX_def)
  show ?thesis
    unfolding Let_def lb_def [symmetric]
    using wf c busy below acquire_slow_path [OF wf c n busy below] by blast
qed

text \<open>
  Claim C3 as stated fails when every counter equals \<^verbatim>\<open>SIZE_MAX\<close>, the initial value of
  \<^verbatim>\<open>minusers\<close>: no slot is strictly below it, \<^verbatim>\<open>min_idx\<close> keeps its initial value 0,
  and the increment wraps that counter to 0. The run below reaches such a state on a pool
  of two slots with the cursor at 1: slot 1 is the first slot in scan order with the
  smallest counter, and \<^verbatim>\<open>acquire\<close> returns 0.
\<close>

theorem acquire_slow_path_counterexample:
  "lb_run [Acquire, Acquire, Free 0, Free 1, Free 0, Free 1] (LoadBalancer_init 2) 0 =
     Inr ([Acquired 0, Acquired 1, Freed 0, Freed 1, Freed 0, Freed 1],
          \<lparr>lb_uses = [SIZE_MAX, 0, 0, 0, 0, 0, 0, 0, SIZE_MAX, 0, 0, 0, 0, 0, 0, 0], lb_n = 2\<rparr>, 1) \<and>
   least_loaded_first
     \<lparr>lb_uses = [SIZE_MAX, 0, 0, 0, 0, 0, 0, 0, SIZE_MAX, 0, 0, 0, 0, 0, 0, 0], lb_n = 2\<rparr> 1 = Some 1 \<and>
   acquire
     \<lparr>lb_uses = [SIZE_MAX, 0, 0, 0, 0, 0, 0, 0, SIZE_MAX, 0, 0, 0, 0, 0, 0, 0], lb_n = 2\<rparr> 1 =
     Inr (0, \<lparr>lb_uses = [0, 0, 0, 0, 0, 0, 0, 0, SIZE_MAX, 0, 0, 0, 0, 0, 0, 0], lb_n = 2\<rparr>, 1)"
  by code_simp

text \<open>
  Claim C4, as amended. The discovery scans the ordered list of variants and selects the
  first variant whose start symbol resolves in the process's own symbol table; the end
  symbol of that variant alone is then looked up. \<^verbatim>\<open>writeDeployInterpreter\<close> returns the
  flag and the byte range of that variant when its end symbol resolves too (and the copy is
  complete); if no start symbol resolves, or the end symbol of the selected variant does
  not, it fails with the diagnostic, the constructor of the instance fails, and no instance
  is returned.
\<close>

theorem embedded_image_discovery:
  "writeDeployInterpreter P dst =
     (if dst = 0 then Inl (InternalAssert ''dst'')
      else
        case first_start_resolves (dlsym_self P) interpreter_search_path of
          None \<Rightarrow>
            Inl (CheckFailed (not_found_text @ (if cuda_is_available P then ''1'' else ''0'')))
        | Some s \<Rightarrow>
            if dlsym_self P (end_sym s) = 0
            then Inl (CheckFailed (not_found_text @ (if cuda_is_available P then ''1'' else ''0'')))
            else
              let start = dlsym_self P (start_sym s);
                  size = nat ((int (dlsym_self P (end_sym s)) - int start) mod 18446744073709551616)
              in if size \<noteq> fwrite_items P start size
                 then Inl (InternalAssert ''expected written == size'')
                 else Inr (custom_loader s, start, size)) \<and>
   ((case first_start_resolves (dlsym_self P) interpreter_search_path of
       None \<Rightarrow> True
     | Some s \<Rightarrow> dlsym_self P (end_sym s) = 0) \<longrightarrow>
    (\<exists>e. Interpreter_ctor P new_impl mgr = Inl e))"
proof -
  let ?sel = "first_start_resolves (dlsym_self P) interpreter_search_path"
  have w: "writeDeployInterpreter P dst =
     (if dst = 0 then Inl (InternalAssert ''dst'')
      else
        case ?sel of
          None \<Rightarrow>
            Inl (CheckFailed (not_found_text @ (if cuda_is_available P then ''1'' else ''0'')))
        | Some s \<Rightarrow>
            if dlsym_self P (end_sym s) = 0
            then Inl (CheckFailed (not_found_text @ (if cuda_is_available P then ''1'' else ''0'')))
            else
              let start = dlsym_self P (start_sym s);
                  size = nat ((int (dlsym_self P (end_sym s)) - int start) mod 18446744073709551616)
              in if size \<noteq> fwrite_items P start size
                 then Inl (InternalAssert ''expected written == size'')
                 else Inr (custom_loader s, start, size))" for dst
  proof (cases ?sel)
    case None
    then show ?thesis
      by (simp add: writeDeployInterpreter_def search_loop_find first_start_resolves_def)
  next
    case (Some s)
    then have "dlsym_self P (start_sym s) \<noteq> 0"
      by (auto simp: first_start_resolves_def find_Some_iff)
    with Some show ?thesis
      by (simp add: writeDeployInterpreter_def search_loop_find first_start_resolves_def Let_def)
  qed
  have c: "\<exists>e. Interpreter_ctor P new_impl mgr = Inl e"
    if "case ?sel of None \<Rightarrow> True | Some s \<Rightarrow> dlsym_self P (end_sym s) = 0"
  proof -
    from that have "\<exists>e. writeDeployInterpreter P (fdopen_file P) = Inl e"
      unfolding w [of "fdopen_file P"] by (auto split: option.splits)
    then show ?thesis
      by (auto simp: Interpreter_ctor_def)
  qed
  from w [of dst] c show ?thesis by blast
qed

theorem embedded_image_discovery_witness:
  "writeDeployInterpreter process_cpu 1 = Inr (False, 8192, 4096) \<and>
   (\<exists>e. Interpreter_ctor process_half_variant (Some \<lparr>objects = []\<rparr>) True = Inl e)"
proof -
  have sel: "first_start_resolves (dlsym_self process_cpu) interpreter_search_path =
      Some \<lparr>start_sym = ''_binary_libtorch_deployinterpreter_cpu_so_start'',
            end_sym = ''_binary_libtorch_deployinterpreter_cpu_so_end'',
            custom_loader = False\<rparr>"
    by code_simp
  have a: "writeDeployInterpreter process_cpu 1 = Inr (False, 8192, 4096)"
    using embedded_image_discovery [of process_cpu 1] unfolding sel
    by (simp add: process_cpu_def)
  have h: "case first_start_resolves (dlsym_self process_half_variant) interpreter_search_path of
       None \<Rightarrow> True
     | Some s \<Rightarrow> dlsym_self process_half_variant (end_sym s) = 0"
    by code_simp
  from embedded_image_discovery [of process_half_variant 1 "Some \<lparr>objects = []\<rparr>" True] h
  have "\<exists>e. Interpreter_ctor process_half_variant (Some \<lparr>objects = []\<rparr>) True = Inl e"
    by blast
  with a show ?thesis by blast
qed

text \<open>
  Claim C4 as stated selects the first variant for which both symbols resolve. In a process
  where the start symbol of the first variant resolves, its end symbol does not, and both
  symbols of the CPU variant resolve, that would be the CPU variant; the loop has stopped
  at the first variant, and construction fails.
\<close>

theorem embedded_image_discovery_counterexample:
  "first_both_resolve (dlsym_self process_half_variant) interpreter_search_path =
     Some \<lparr>start_sym = ''_binary_libtorch_deployinterpreter_cpu_so_start'',
           end_sym = ''_binary_libtorch_deployinterpreter_cpu_so_end'',
           custom_loader = False\<rparr> \<and>
   writeDeployInterpreter process_half_variant 1 = Inl (CheckFailed (not_found_text @ ''0'')) \<and>
   Interpreter_ctor process_half_variant (Some \<lparr>objects = []\<rparr>) True =
     Inl (CheckFailed (not_found_text @ ''0''))"
  by code_simp

text \<open>
  Claim C8. The destruction of an \<^verbatim>\<open>Interpreter\<close> whose image handle is not null releases
  the runtime-control object first (when \<^verbatim>\<open>pImpl_\<close> owns one), then calls the hook
  \<^verbatim>\<open>deploy_flush_python_libs\<close> exactly once if and only if the custom loader was used, and
  closes the image last, exactly once. The only other course is the one in which the
  custom loader was used and the image does not export the hook: the call through the
  null pointer comes after the release and the image is never closed.
\<close>

theorem teardown_order:
  assumes "handle I \<noteq> 0"
  shows "Interpreter_destroy dlsym_h I =
     (if custom_loader_flag I \<and> dlsym_h ''deploy_flush_python_libs'' = 0
      then (case pImpl I of None \<Rightarrow> [] | Some impl \<Rightarrow> [ReleaseImpl impl],
            Some (Undefined ''call through a null pointer''))
      else ((case pImpl I of None \<Rightarrow> [] | Some impl \<Rightarrow> [ReleaseImpl impl]) @
            (if custom_loader_flag I then [FlushPythonLibs] else []) @ [Dlclose (handle I)],
            None))"
  using assms by (simp add: Interpreter_destroy_def Interpreter_dtor_def Let_def)

theorem teardown_order_witness:
  "Interpreter_destroy (\<lambda>name. 5)
     \<lparr>library_name = ''/tmp/torch_deployAAAAAA'', handle = 7, pImpl = Some \<lparr>objects = []\<rparr>,
      custom_loader_flag = True, interp_manager = True\<rparr> =
   ([ReleaseImpl \<lparr>objects = []\<rparr>, FlushPythonLibs, Dlclose 7], None)"
  using teardown_order [of "\<lparr>library_name = ''/tmp/torch_deployAAAAAA'', handle = 7,
      pImpl = Some \<lparr>objects = []\<rparr>, custom_loader_flag = True, interp_manager = True\<rparr>" "\<lambda>name. 5"]
  by simp

text \<open>
  Claim C10. The destructor of an \<^verbatim>\<open>Interpreter\<close> whose image handle is null does nothing
  and returns: no release of the runtime-control object, no call of the hook, no
  \<^verbatim>\<open>dlclose\<close>, and the object is as it was. With \<^verbatim>\<open>pImpl_\<close> empty, as in a moved-from
  instance, the destruction of the members does nothing either.
\<close>

theorem null_handle_teardown:
  assumes "handle I = 0"
  shows "Interpreter_dtor dlsym_h I = ([], Inr I) \<and>
     (pImpl I = None \<longrightarrow> Interpreter_destroy dlsym_h I = ([], None))"
  using assms by (simp add: Interpreter_destroy_def Interpreter_dtor_def)

theorem null_handle_teardown_witness:
  "Interpreter_dtor (\<lambda>name. 5)
     \<lparr>library_name = ''/tmp/torch_deployAAAAAA'', handle = 0, pImpl = None,
      custom_loader_flag = True, interp_manager = True\<rparr> =
     ([], Inr \<lparr>library_name = ''/tmp/torch_deployAAAAAA'', handle = 0, pImpl = None,
      custom_loader_flag = True, interp_manager = True\<rparr>) \<and>
   Interpreter_destroy (\<lambda>name. 5)
     \<lparr>library_name = ''/tmp/torch_deployAAAAAA'', handle = 0, pImpl = None,
      custom_loader_flag = True, interp_manager = True\<rparr> = ([], None)"
  using null_handle_teardown [of "\<lparr>library_name = ''/tmp/torch_deployAAAAAA'', handle = 0,
      pImpl = None, custom_loader_flag = True, interp_manager = True\<rparr>" "\<lambda>name. 5"]
  by simp

text \<open>
  Claim C5. \<^verbatim>\<open>create_movable\<close> on a session whose \<^verbatim>\<open>manager_\<close> is null fails at once with
  the precondition error of \<^verbatim>\<open>TORCH_CHECK\<close>, and the manager is as before: no object id is
  drawn and no object is made. On a session with a manager the result is never that error:
  when the serialization in the runtime instance succeeds it is a new object with the
  next id of the manager, and when the serialization raises it is that error, rethrown,
  with the manager as before.
\<close>

theorem create_movable_precondition:
  "(\<not> sess_manager s \<longrightarrow>
      create_movable pickle m s obj = (Inl (Rethrown (CheckFailed create_movable_text)), m)) \<and>
   (sess_manager s \<longrightarrow>
      fst (create_movable pickle m s obj) \<noteq> Inl (Rethrown (CheckFailed create_movable_text)) \<and>
      (\<forall>pickled. pickle (self s) obj = Inr pickled \<longrightarrow>
         create_movable pickle m s obj =
           (Inr \<lparr>object_id = next_object_id m, data = pickled, obj_manager = True\<rparr>,
            m\<lparr>next_object_id := next_object_id m + 1\<rparr>)) \<and>
      (\<forall>msg. pickle (self s) obj = Inl msg \<longrightarrow>
         create_movable pickle m s obj = (Inl (Rethrown (RuntimeError msg)), m)))"
  by (auto simp: create_movable_def split: sum.splits)

theorem create_movable_precondition_witness:
  "create_movable (\<lambda>slf obj. Inr [1, 2]) example_pool
       \<lparr>sess_on = 0, self = 0, sess_manager = False, notify_idx = - 1\<rparr> 5 =
     (Inl (Rethrown (CheckFailed create_movable_text)), example_pool) \<and>
   create_movable (\<lambda>slf obj. Inr [1, 2]) example_pool
       \<lparr>sess_on = 0, self = 0, sess_manager = True, notify_idx = 0\<rparr> 5 =
     (Inr \<lparr>object_id = next_object_id example_pool, data = [1, 2], obj_manager = True\<rparr>,
      example_pool\<lparr>next_object_id := next_object_id example_pool + 1\<rparr>)"
  using
    create_movable_precondition [of "\<lparr>sess_on = 0, self = 0, sess_manager = False, notify_idx = - 1\<rparr>"
      "\<lambda>slf obj. Inr [1, 2]" example_pool 5]
    create_movable_precondition [of "\<lparr>sess_on = 0, self = 0, sess_manager = True, notify_idx = 0\<rparr>"
      "\<lambda>slf obj. Inr [1, 2]" example_pool 5]
  by simp

text \<open>
  Claim C6. In every history of one pool (creations of movable objects from any sessions,
  resolutions and destructions of movable objects, in any order) the ids that
  \<^verbatim>\<open>create_movable\<close> assigns are strictly increasing in the order of creation and
  pairwise distinct: they are the consecutive numbers from the counter's value at the
  start. Destructions and resolutions do not touch the counter.
\<close>

theorem object_ids_increasing:
  "sorted_wrt (<) (fst (pool_run pickle unpickle ops m)) \<and>
   distinct (fst (pool_run pickle unpickle ops m)) \<and>
   fst (pool_run pickle unpickle ops m) =
     [next_object_id m..<next_object_id m + length (fst (pool_run pickle unpickle ops m))]"
proof -
  let ?ids = "fst (pool_run pickle unpickle ops m)"
  have e: "?ids = [next_object_id m..<next_object_id m + length ?ids]"
    by (rule pool_run_ids)
  have "sorted_wrt (<) [next_object_id m..<next_object_id m + length ?ids]"
    by (simp add: sorted_wrt_upt)
  moreover have "distinct [next_object_id m..<next_object_id m + length ?ids]"
    by simp
  ultimately show ?thesis using e by metis
qed

text \<open>An example with a destruction between two creations and a failed creation.\<close>

theorem object_ids_increasing_example:
  "fst (pool_run (\<lambda>slf obj. Inr [1, 2]) (\<lambda>d. 41)
     [CreateMovable \<lparr>sess_on = 0, self = 0, sess_manager = True, notify_idx = 0\<rparr> 5,
      DestroyMovable \<lparr>object_id = 1, data = [1, 2], obj_manager = True\<rparr>,
      CreateMovable \<lparr>sess_on = 1, self = 0, sess_manager = False, notify_idx = - 1\<rparr> 5,
      CreateMovable \<lparr>sess_on = 1, self = 0, sess_manager = True, notify_idx = 1\<rparr> 6]
     example_pool) = [1, 2]"
  by code_simp

text \<open>
  Claim C7. In a pool whose instances all have their runtime-control object, the
  destruction of the last handle of a movable object made by \<^verbatim>\<open>create_movable\<close> visits
  every instance of the pool in order: a session on the instance is acquired and the
  object's id is evicted there, so that afterwards no instance of the pool holds a
  materialization of the id, whatever instances had one. An unload with a target instance
  evicts on that instance only, and only that id. Where the id is not materialized the
  unload changes nothing and is not an error.
\<close>

theorem unload_broadcast:
  assumes "list_all (\<lambda>I. pImpl I \<noteq> None) (instances m)" "obj_manager obj"
  shows "ReplicatedObj_dtor m obj 1 =
       (concat (map (\<lambda>k. [AcquireSession k, Unload k (object_id obj)])
          [0..<length (instances m)]),
        Inr (m\<lparr>instances := map (evicted (object_id obj)) (instances m)\<rparr>)) \<and>
     (\<forall>I\<in>set (map (evicted (object_id obj)) (instances m)).
        \<not> materialized I (object_id obj)) \<and>
     (\<forall>k<length (instances m).
        ReplicatedObj_unload m obj (Some k) =
          ([AcquireSession k, Unload k (object_id obj)],
           Inr (m\<lparr>instances :=
                  (instances m)[k := evicted (object_id obj) (instances m ! k)]\<rparr>)) \<and>
        (\<forall>j. j \<noteq> object_id obj \<longrightarrow>
           materialized (evicted (object_id obj) (instances m ! k)) j =
           materialized (instances m ! k) j) \<and>
        (\<not> materialized (instances m ! k) (object_id obj) \<longrightarrow>
           ReplicatedObj_unload m obj (Some k) =
             ([AcquireSession k, Unload k (object_id obj)], Inr m)))"
proof -
  have a: "ReplicatedObj_dtor m obj 1 =
       (concat (map (\<lambda>k. [AcquireSession k, Unload k (object_id obj)])
          [0..<length (instances m)]),
        Inr (m\<lparr>instances := map (evicted (object_id obj)) (instances m)\<rparr>))"
    using assms(2) unload_all_pool [OF assms(1), of obj]
    by (simp add: ReplicatedObj_dtor_def ReplicatedObjImpl_dtor_def ReplicatedObjImpl_unload_def)
  have b: "\<forall>I\<in>set (map (evicted (object_id obj)) (instances m)).
        \<not> materialized I (object_id obj)"
    by (auto simp: not_materialized_evicted)
  have c: "ReplicatedObj_unload m obj (Some k) =
          ([AcquireSession k, Unload k (object_id obj)],
           Inr (m\<lparr>instances :=
                  (instances m)[k := evicted (object_id obj) (instances m ! k)]\<rparr>))"
    if "k < length (instances m)" for k
  proof -
    from assms(1) that have "pImpl (instances m ! k) \<noteq> None"
      by (simp add: list_all_length)
    from unload_on_pool [OF that this, of obj] show ?thesis
      by (simp add: ReplicatedObj_unload_def ReplicatedObjImpl_unload_def)
  qed
  have d: "ReplicatedObj_unload m obj (Some k) =
             ([AcquireSession k, Unload k (object_id obj)], Inr m)"
    if "k < length (instances m)" "\<not> materialized (instances m ! k) (object_id obj)" for k
  proof -
    have "(instances m)[k := evicted (object_id obj) (instances m ! k)] = instances m"
      using evicted_absent [OF that(2)] by simp
    with c [OF that(1)] show ?thesis by simp
  qed
  from a b c d materialized_evicted_other show ?thesis by blast
qed

theorem unload_broadcast_witness:
  "ReplicatedObj_dtor example_pool \<lparr>object_id = 0, data = [1, 2], obj_manager = True\<rparr> 1 =
     ([AcquireSession 0, Unload 0 0, AcquireSession 1, Unload 1 0],
      Inr (example_pool\<lparr>instances := map (evicted 0) (instances example_pool)\<rparr>)) \<and>
   ReplicatedObj_unload example_pool \<lparr>object_id = 0, data = [1, 2], obj_manager = True\<rparr> (Some 1) =
     ([AcquireSession 1, Unload 1 0], Inr example_pool)"
proof -
  let ?obj = "\<lparr>object_id = 0, data = [1, 2], obj_manager = True\<rparr>"
  have h1: "list_all (\<lambda>I. pImpl I \<noteq> None) (instances example_pool)"
    by (simp add: example_pool_def)
  have h2: "obj_manager ?obj" by simp
  have len: "length (instances example_pool) = 2" by (simp add: example_pool_def)
  have nm: "\<not> materialized (instances example_pool ! 1) (object_id ?obj)"
    by (simp add: example_pool_def materialized_def)
  have up: "[0..<2] = [0, Suc 0]" by (simp add: upt_rec)
  note t = unload_broadcast [OF h1 h2]
  from t have "ReplicatedObj_dtor example_pool ?obj 1 =
     ([AcquireSession 0, Unload 0 0, AcquireSession 1, Unload 1 0],
      Inr (example_pool\<lparr>instances := map (evicted 0) (instances example_pool)\<rparr>))"
    unfolding len up by simp
  moreover have "ReplicatedObj_unload example_pool ?obj (Some 1) =
     ([AcquireSession 1, Unload 1 0], Inr example_pool)"
  proof -
    have k1: "1 < length (instances example_pool)" by (simp add: len)
    from t k1 nm have "ReplicatedObj_unload example_pool ?obj (Some 1) =
        ([AcquireSession 1, Unload 1 (object_id ?obj)], Inr example_pool)"
      by blast
    then show ?thesis by simp
  qed
  ultimately show ?thesis by blast
qed

text \<open>
  Claim C9. In a pool as constructed, a session obtained through balancing
  (\<^verbatim>\<open>acquire_one\<close>) carries the index the balancer returned, and its destructor calls
  \<^verbatim>\<open>free\<close> exactly once, on that index: the counter of that slot goes down by 1, no other
  counter and nothing else in the manager changes, and the manager is again as it was
  before the session. The destructor of a session pinned to an instance
  (\<^verbatim>\<open>Interpreter::acquire_session\<close>) makes no call of \<^verbatim>\<open>free\<close> and leaves the manager
  unchanged.
\<close>

theorem session_release:
  assumes "pool_wf m" "is_int cur"
  shows "(\<exists>idx<lb_n (resources m). \<exists>s m1 cur1.
       acquire_one m cur = Inr (s, m1, cur1) \<and>
       notify_idx s = int idx \<and> sess_on s = idx \<and>
       InterpreterSession_dtor m1 s =
         ([int idx],
          Inr (m1\<lparr>resources :=
                 set_counter (resources m1) idx (counter (resources m1) idx - 1)\<rparr>)) \<and>
       (\<forall>i. i \<noteq> idx \<longrightarrow>
          counter (set_counter (resources m1) idx (counter (resources m1) idx - 1)) i =
          counter (resources m1) i) \<and>
       m1\<lparr>resources := set_counter (resources m1) idx (counter (resources m1) idx - 1)\<rparr> = m) \<and>
     (\<forall>k<length (instances m).
        InterpreterSession_dtor m (Interpreter_acquire_session (instances m ! k) k) = ([], Inr m))"
proof -
  let ?lb = "resources m"
  from assms(1) have wf: "lb_wf ?lb" and n0: "0 < lb_n ?lb"
    and len: "length (instances m) = lb_n ?lb"
    and all: "list_all (\<lambda>I. interp_manager I \<and> pImpl I \<noteq> None \<and> handle I \<noteq> 0) (instances m)"
    by (simp_all add: pool_wf_def)
  from acquire_total [OF wf n0 assms(2)] obtain p c1 where p: "p < lb_n ?lb"
    and acq: "acquire ?lb cur = Inr (int p, set_counter ?lb p (counter ?lb p + 1), c1)"
    by blast
  let ?lb1 = "set_counter ?lb p (counter ?lb p + 1)"
  let ?s = "(Interpreter_acquire_session (instances m ! p) p)\<lparr>notify_idx := int p\<rparr>"
  let ?m1 = "m\<lparr>resources := ?lb1\<rparr>"
  have one: "acquire_one m cur = Inr (?s, ?m1, c1)"
    using p len by (simp add: acquire_one_def acq)
  have mgr: "sess_manager ?s"
    using all p len by (simp add: Interpreter_acquire_session_def list_all_length)
  have inu: "8 * p < length (lb_uses ?lb)" using slot_in_uses [OF wf p] .
  have c1p: "counter ?lb1 p = counter ?lb p + 1"
    by (simp add: counter_set_counter [OF inu])
  have fr: "free ?lb1 (int p) = Inr (set_counter ?lb1 p (counter ?lb1 p - 1))"
    using free_slot [of ?lb1 p] wf p by simp
  have dt: "InterpreterSession_dtor ?m1 ?s =
      ([int p], Inr (?m1\<lparr>resources := set_counter (resources ?m1) p (counter (resources ?m1) p - 1)\<rparr>))"
    using mgr by (simp add: InterpreterSession_dtor_def fr)
  have inu1: "8 * p < length (lb_uses ?lb1)" using inu by (simp add: set_counter_def)
  have frm: "\<forall>i. i \<noteq> p \<longrightarrow>
      counter (set_counter (resources ?m1) p (counter (resources ?m1) p - 1)) i =
      counter (resources ?m1) i"
    using counter_set_counter [OF inu1] by simp
  have "set_counter ?lb1 p (counter ?lb1 p - 1) = ?lb"
    unfolding c1p set_counter_twice by (simp add: set_counter_same)
  then have restored: "?m1\<lparr>resources := set_counter (resources ?m1) p (counter (resources ?m1) p - 1)\<rparr> = m"
    by simp
  have s1: "notify_idx ?s = int p" "sess_on ?s = p"
    by (simp_all add: Interpreter_acquire_session_def)
  have bal: "\<exists>idx<lb_n (resources m). \<exists>s m1 cur1.
       acquire_one m cur = Inr (s, m1, cur1) \<and>
       notify_idx s = int idx \<and> sess_on s = idx \<and>
       InterpreterSession_dtor m1 s =
         ([int idx],
          Inr (m1\<lparr>resources :=
                 set_counter (resources m1) idx (counter (resources m1) idx - 1)\<rparr>)) \<and>
       (\<forall>i. i \<noteq> idx \<longrightarrow>
          counter (set_counter (resources m1) idx (counter (resources m1) idx - 1)) i =
          counter (resources m1) i) \<and>
       m1\<lparr>resources := set_counter (resources m1) idx (counter (resources m1) idx - 1)\<rparr> = m"
    using p one s1 dt frm restored by blast
  have pin: "\<forall>k<length (instances m).
        InterpreterSession_dtor m (Interpreter_acquire_session (instances m ! k) k) = ([], Inr m)"
    by (simp add: InterpreterSession_dtor_pinned)
  from bal pin show ?thesis by blast
qed

theorem session_release_witness:
  "(pool_wf example_pool \<and> is_int 0) \<and>
   (\<exists>idx<lb_n (resources example_pool). \<exists>s m1 cur1.
       acquire_one example_pool 0 = Inr (s, m1, cur1) \<and>
       notify_idx s = int idx \<and> sess_on s = idx \<and>
       InterpreterSession_dtor m1 s =
         ([int idx],
          Inr (m1\<lparr>resources :=
                 set_counter (resources m1) idx (counter (resources m1) idx - 1)\<rparr>)) \<and>
       m1\<lparr>resources := set_counter (resources m1) idx (counter (resources m1) idx - 1)\<rparr> =
         example_pool) \<and>
   InterpreterSession_dtor example_pool
     (Interpreter_acquire_session (instances example_pool ! 1) 1) = ([], Inr example_pool)"
proof -
  have wf: "pool_wf example_pool"
    by (simp add: pool_wf_def example_pool_def lb_wf_def LoadBalancer_init_def INT_MAX_def)
  have c: "is_int 0" by (simp add: is_int_def INT_MIN_def INT_MAX_def)
  have len: "1 < length (instances example_pool)" by (simp add: example_pool_def)
  from session_release [OF wf c] wf c len show ?thesis by blast
qed

end
